theory Spec2Isabelle
  imports Main "HOL-Library.AList"
begin

section \<open>Data model of byteflow2.py\<close>

text \<open>
  Labels are the two frozen dataclasses \<open>BCLabel(offset)\<close> and \<open>ControlLabel(index)\<close>;
  both payloads are Python integers.
\<close>

datatype label = BCLabel int | ControlLabel int

text \<open>
  The exceptions the modelled functions can raise. A failed \<open>assert\<close> is
  \<open>AssertionError\<close>; reading a local that was never bound is \<open>UnboundLocalError\<close>.
\<close>

datatype error =
    AssertionError
  | KeyError
  | TypeError
  | UnboundLocalError
  | StopIteration
  | IndexError
  | ValueError
  | RuntimeError

text \<open>
  The five fields every block has (class \<open>BasicBlock\<close>). Tuples of labels are lists.
\<close>

record bb =
  bb_begin :: label
  bb_end :: label
  fallthrough :: bool
  jump_targets :: "label list"
  backedges :: "label list"

text \<open>
  The \<open>headers\<close> field of a \<open>RegionBlock\<close> is annotated as a dict, and the source stores
  three different things in it: a dict from label to block (loop regions, and the empty
  dict of branch regions), a tuple of labels (head regions) and a set of labels (tail
  regions). A set is kept as a duplicate-free list in insertion order.
\<close>

datatype headers =
    HeadersDict "(label \<times> bb) list"
  | HeadersTuple "label list"
  | HeadersSet "label list"

text \<open>
  A block is a plain \<open>BasicBlock\<close> or a \<open>RegionBlock\<close>, which adds \<open>kind\<close>, \<open>headers\<close>,
  \<open>subregion\<close> and \<open>exit\<close>. The subregion is a mutable \<open>BlockMap\<close> object that the source
  shares by reference, so a region holds the address of its subregion in a store.
\<close>

datatype block =
    BasicBlock bb
  | RegionBlock bb string headers nat "label option"

fun base :: "block \<Rightarrow> bb" where
  "base (BasicBlock b) = b"
| "base (RegionBlock b k h s e) = b"

fun with_base :: "block \<Rightarrow> bb \<Rightarrow> block" where
  "with_base (BasicBlock _) b = BasicBlock b"
| "with_base (RegionBlock _ k h s e) b = RegionBlock b k h s e"

text \<open>\<open>BasicBlock.is_exiting\<close>: \<open>not self.jump_targets\<close>.\<close>

definition is_exiting :: "block \<Rightarrow> bool" where
  "is_exiting blk = (jump_targets (base blk) = [])"

text \<open>
  \<open>BasicBlock.replace_backedge\<close>. \<open>dataclasses.replace\<close> keeps every other field, also the
  region fields of a \<open>RegionBlock\<close>.
\<close>

definition replace_backedge :: "block \<Rightarrow> label \<Rightarrow> error + block" where
  "replace_backedge blk loop_head =
     (if loop_head \<in> set (jump_targets (base blk)) then
        if length (jump_targets (base blk)) \<noteq> 1 then Inl AssertionError
        else if backedges (base blk) \<noteq> [] then Inl AssertionError
        else Inr (with_base blk ((base blk)\<lparr>jump_targets := [], backedges := [loop_head]\<rparr>))
      else Inr blk)"

text \<open>\<open>BasicBlock.replace_jump_targets\<close>.\<close>

definition replace_jump_targets :: "block \<Rightarrow> label list \<Rightarrow> block" where
  "replace_jump_targets blk jts = with_base blk ((base blk)\<lparr>jump_targets := jts\<rparr>)"

text \<open>
  A new \<open>BasicBlock\<close> with \<open>backedges=()\<close>, as the flow builder and every synthetic block
  of the restructuring passes is made.
\<close>

definition mk_bb :: "label \<Rightarrow> label \<Rightarrow> bool \<Rightarrow> label list \<Rightarrow> block" where
  "mk_bb b e ft jts =
     BasicBlock \<lparr>bb_begin = b, bb_end = e, fallthrough = ft, jump_targets = jts, backedges = []\<rparr>"

section \<open>Python containers\<close>

text \<open>
  A \<open>dict\<close> is an association list in insertion order: assigning to a present key
  keeps its position, assigning to a new key appends, \<open>pop\<close> and \<open>del\<close> remove the key and
  raise \<open>KeyError\<close> when it is absent, and so does reading an absent key (\<open>map_of\<close> gives
  \<open>None\<close>). A \<open>set\<close> of labels is a duplicate-free list in insertion order. Python leaves
  the iteration order of a set open and CPython follows the hashes of the members, so the
  order of the list is the order of the code only for a set with one member. It shows
  where the code turns a set into a tuple or reads it with \<open>next(iter(...))\<close>:
  \<open>tuple(headers)\<close> in \<open>join_headers\<close>, \<open>tuple(exits)\<close> in \<open>join_exits\<close> and \<open>next(iter(exits))\<close>
  for the end of the tail region. The runs that are evaluated below meet one-member sets
  at these places, and the general statements use only the members of such a set and their number.
\<close>

type_synonym graph = "(label \<times> block) list"

definition dict_keys :: "('k \<times> 'v) list \<Rightarrow> 'k list" where
  "dict_keys d = map fst d"

definition dict_set :: "('k \<times> 'v) list \<Rightarrow> 'k \<Rightarrow> 'v \<Rightarrow> ('k \<times> 'v) list" where
  "dict_set d k v = AList.update k v d"

definition dict_pop :: "('k \<times> 'v) list \<Rightarrow> 'k \<Rightarrow> error + ('v \<times> ('k \<times> 'v) list)" where
  "dict_pop d k =
     (case map_of d k of None \<Rightarrow> Inl KeyError | Some v \<Rightarrow> Inr (v, AList.delete k d))"

definition set_add :: "'a list \<Rightarrow> 'a \<Rightarrow> 'a list" where
  "set_add xs x = (if x \<in> set xs then xs else xs @ [x])"

definition set_of_list :: "'a list \<Rightarrow> 'a list" where
  "set_of_list xs = foldl set_add [] xs"

text \<open>\<open>BlockMap.add_node\<close>: \<open>self.graph[basicblock.begin] = basicblock\<close>.\<close>

definition add_node :: "graph \<Rightarrow> block \<Rightarrow> graph" where
  "add_node g blk = dict_set g (bb_begin (base blk)) blk"

section \<open>Flow builder\<close>

text \<open>
  The fields of \<open>dis.Instruction\<close> that \<open>FlowInfo.from_bytecode\<close> reads. \<open>argval\<close> is read
  for jump instructions only, where the decoder gives an integer offset.
\<close>

record instruction =
  opname :: string
  argval :: int
  offset :: int
  is_jump_target :: bool

definition is_conditional_jump :: "string \<Rightarrow> bool" where
  "is_conditional_jump opn =
     (opn \<in> set [''FOR_ITER'', ''POP_JUMP_IF_FALSE'', ''POP_JUMP_IF_TRUE''])"

definition is_unconditional_jump :: "string \<Rightarrow> bool" where
  "is_unconditional_jump opn = (opn \<in> set [''JUMP_ABSOLUTE'', ''JUMP_FORWARD''])"

definition is_exiting_op :: "string \<Rightarrow> bool" where
  "is_exiting_op opn = (opn \<in> set [''RETURN_VALUE''])"

text \<open>\<open>_next_inst_offset\<close> and \<open>_prev_inst_offset\<close> assert that the label is a \<open>BCLabel\<close>.\<close>

fun next_inst_offset :: "label \<Rightarrow> error + label" where
  "next_inst_offset (BCLabel n) = Inr (BCLabel (n + 2))"
| "next_inst_offset (ControlLabel _) = Inl AssertionError"

fun prev_inst_offset :: "label \<Rightarrow> error + label" where
  "prev_inst_offset (BCLabel n) = Inr (BCLabel (n - 2))"
| "prev_inst_offset (ControlLabel _) = Inl AssertionError"

record flowinfo =
  block_offsets :: "label list"
  jump_insts :: "(label \<times> label list) list"
  last_offset :: int

definition add_jump_inst :: "flowinfo \<Rightarrow> label \<Rightarrow> label list \<Rightarrow> flowinfo" where
  "add_jump_inst fi off targets =
     fi\<lparr>block_offsets := foldl set_add (block_offsets fi) targets,
        jump_insts := dict_set (jump_insts fi) off targets\<rparr>"

text \<open>The body of the \<open>for inst in bc\<close> loop of \<open>FlowInfo.from_bytecode\<close>.\<close>

definition from_bytecode_step :: "flowinfo \<Rightarrow> instruction \<Rightarrow> flowinfo" where
  "from_bytecode_step fi inst =
     (let fi1 = (if offset inst = 0 \<or> is_jump_target inst
                 then fi\<lparr>block_offsets := set_add (block_offsets fi) (BCLabel (offset inst))\<rparr>
                 else fi)
      in if is_conditional_jump (opname inst) then
           add_jump_inst fi1 (BCLabel (offset inst))
             [BCLabel (argval inst), BCLabel (offset inst + 2)]
         else if is_unconditional_jump (opname inst) then
           add_jump_inst fi1 (BCLabel (offset inst)) [BCLabel (argval inst)]
         else if is_exiting_op (opname inst) then
           add_jump_inst fi1 (BCLabel (offset inst)) []
         else fi1)"

text \<open>
  \<open>FlowInfo.from_bytecode\<close>. After the loop the source reads the loop variable \<open>inst\<close>,
  which is unbound when the stream is empty.
\<close>

definition from_bytecode :: "instruction list \<Rightarrow> error + flowinfo" where
  "from_bytecode bc =
     (if bc = [] then Inl UnboundLocalError
      else Inr ((foldl from_bytecode_step
                   \<lparr>block_offsets = [], jump_insts = [], last_offset = 0\<rparr> bc)
                 \<lparr>last_offset := offset (last bc)\<rparr>))"

text \<open>
  \<open>sorted\<close> on labels: the dataclass order compares two labels of one class by their
  payload and raises \<open>TypeError\<close> on labels of different classes.
\<close>

fun is_bc :: "label \<Rightarrow> bool" where
  "is_bc (BCLabel _) = True"
| "is_bc (ControlLabel _) = False"

fun payload :: "label \<Rightarrow> int" where
  "payload (BCLabel n) = n"
| "payload (ControlLabel n) = n"

definition sorted_labels :: "label list \<Rightarrow> error + label list" where
  "sorted_labels ls =
     (if list_all is_bc ls \<or> list_all (\<lambda>l. \<not> is_bc l) ls
      then Inr (sort_key payload ls) else Inl TypeError)"

text \<open>The body of the loop of \<open>FlowInfo.build_basicblocks\<close>, for one pair of the zip.\<close>

definition build_block :: "flowinfo \<Rightarrow> label \<Rightarrow> label \<Rightarrow> error + block" where
  "build_block fi b e =
     (case prev_inst_offset e of
        Inl err \<Rightarrow> Inl err
      | Inr term_offset \<Rightarrow>
          (case map_of (jump_insts fi) term_offset of
             None \<Rightarrow> Inr (BasicBlock \<lparr>bb_begin = b, bb_end = e, fallthrough = True,
                       jump_targets = [e], backedges = []\<rparr>)
           | Some targets \<Rightarrow> Inr (BasicBlock \<lparr>bb_begin = b, bb_end = e, fallthrough = False,
                       jump_targets = targets, backedges = []\<rparr>)))"

fun build_blocks :: "flowinfo \<Rightarrow> graph \<Rightarrow> (label \<times> label) list \<Rightarrow> error + graph" where
  "build_blocks fi g [] = Inr g"
| "build_blocks fi g ((b, e) # rest) =
     (case build_block fi b e of
        Inl err \<Rightarrow> Inl err
      | Inr blk \<Rightarrow> build_blocks fi (add_node g blk) rest)"

text \<open>
  \<open>FlowInfo.build_basicblocks\<close>; \<open>end_offset\<close> is \<open>None\<close> by default and then the offset
  after the last instruction.
\<close>

definition build_basicblocks :: "flowinfo \<Rightarrow> label option \<Rightarrow> error + graph" where
  "build_basicblocks fi end_offset =
     (case sorted_labels (block_offsets fi) of
        Inl err \<Rightarrow> Inl err
      | Inr offsets \<Rightarrow>
          (let e = (case end_offset of None \<Rightarrow> BCLabel (last_offset fi + 2) | Some l \<Rightarrow> l)
           in build_blocks fi [] (zip offsets (tl offsets @ [e]))))"

text \<open>
  The block map of \<open>ByteFlow.from_bytecode\<close>: \<open>FlowInfo.from_bytecode(bc)\<close>, then
  \<open>build_basicblocks()\<close>. The decoder \<open>dis.Bytecode\<close> is outside the model, which starts
  from the instructions.
\<close>

definition initial_graph :: "instruction list \<Rightarrow> error + graph" where
  "initial_graph bc =
     (case from_bytecode bc of
        Inl err \<Rightarrow> Inl err
      | Inr flowinfo \<Rightarrow> build_basicblocks flowinfo None)"

section \<open>Strongly connected components\<close>

text \<open>
  \<open>GraphWrap.__getitem__\<close> of \<open>BlockMap.compute_scc\<close>: the jump targets of a vertex that are
  keys of the map.
\<close>

definition graph_succs :: "graph \<Rightarrow> label \<Rightarrow> label list" where
  "graph_succs g v =
     (case map_of g v of
        None \<Rightarrow> []
      | Some blk \<Rightarrow> [k \<leftarrow> jump_targets (base blk). k \<in> set (dict_keys g)])"

text \<open>
  Modelled from the spec: a search along the successors, for the function \<open>scc\<close> below.
  \<open>reach adj n todo seen\<close> adds to \<open>seen\<close> what the vertices of \<open>todo\<close> reach in no step or
  more; \<open>n\<close> bounds the number of steps.
\<close>

fun reach :: "(label \<Rightarrow> label list) \<Rightarrow> nat \<Rightarrow> label list \<Rightarrow> label list \<Rightarrow> label list" where
  "reach adj 0 todo seen = seen"
| "reach adj (Suc n) [] seen = seen"
| "reach adj (Suc n) (v # todo) seen =
     (if v \<in> set seen then reach adj n todo seen
      else reach adj n (adj v @ todo) (seen @ [v]))"

text \<open>
  Modelled from the spec: the vertices that a vertex reaches in one step or more. Every
  step of the search takes one vertex off the list, and the successors of a vertex are put
  on it once, so on a block map the bound is never reached.
\<close>

definition reachable :: "label list \<Rightarrow> (label \<Rightarrow> label list) \<Rightarrow> label \<Rightarrow> label list" where
  "reachable vs adj v =
     reach adj (Suc (length (adj v) + length vs + length (concat (map adj vs)))) (adj v) []"

text \<open>
  Modelled from the spec: the components, from the list of the vertices paired with what
  each reaches. The component of the first vertex is that vertex and the later ones that
  reach it and that it reaches; the rest is split in the same way.
\<close>

fun scc_from :: "(label \<times> label list) list \<Rightarrow> label list list" where
  "scc_from [] = []"
| "scc_from ((v, rv) # rest) =
     (v # map fst [(u, ru) \<leftarrow> rest. u \<in> set rv \<and> v \<in> set ru]) #
     scc_from [(u, ru) \<leftarrow> rest. \<not> (u \<in> set rv \<and> v \<in> set ru)]"

text \<open>
  Modelled from the spec: the function \<open>scc\<close> of the module \<open>scc\<close> that
  \<open>BlockMap.compute_scc\<close> imports is not among the sources. The spec says that
  \<open>compute_scc\<close> "returns the list of strongly-connected node-sets over the jump-target
  edge relation, restricted to labels present in the map". A component is the set of
  vertices that reach each other, and the components are listed in the order of their
  first vertex among the keys; the spec leaves the order open.
\<close>

definition scc :: "label list \<Rightarrow> (label \<Rightarrow> label list) \<Rightarrow> label list list" where
  "scc vs adj = scc_from (map (\<lambda>v. (v, reachable vs adj v)) (remdups vs))"

text \<open>
  \<open>BlockMap.compute_scc\<close>: \<open>list(scc(GraphWrap(self.graph)))\<close>. The library function is
  the parameter \<open>sccf\<close>; it receives what \<open>GraphWrap\<close> shows it, the keys and the
  successors of a vertex. The theorems about all block maps hold for every \<open>sccf\<close>, the
  theorems about one input instantiate it with \<open>scc\<close>.
\<close>

type_synonym sccfun = "label list \<Rightarrow> (label \<Rightarrow> label list) \<Rightarrow> label list list"

definition compute_scc :: "sccfun \<Rightarrow> graph \<Rightarrow> label list list" where
  "compute_scc sccf g = sccf (dict_keys g) (graph_succs g)"

text \<open>
  What every such library function gives, whatever its order: the components are sets,
  and two different labels of one component reach each other along the edges of the map.
\<close>

definition graph_edges :: "graph \<Rightarrow> (label \<times> label) set" where
  "graph_edges g = {(u, v). v \<in> set (graph_succs g u)}"

definition sound_components :: "graph \<Rightarrow> label list list \<Rightarrow> bool" where
  "sound_components g comps \<longleftrightarrow>
     (\<forall>c\<in>set comps. distinct c \<and>
        (\<forall>u\<in>set c. \<forall>v\<in>set c. u \<noteq> v \<longrightarrow> (u, v) \<in> (graph_edges g)\<^sup>+))"

section \<open>Closing the graph\<close>

text \<open>
  The label generator \<open>clg\<close> is a global counter; the model threads its \<open>index\<close> through
  every function that mints a label. \<open>new_index\<close> returns the index and adds one.
\<close>

text \<open>The list \<open>return_nodes\<close> of \<open>BlockMap.join_returns\<close>.\<close>

definition return_nodes :: "graph \<Rightarrow> label list" where
  "return_nodes g =
     [node \<leftarrow> dict_keys g. case map_of g node of None \<Rightarrow> False | Some blk \<Rightarrow> is_exiting blk]"

text \<open>The loop \<open>for rnode in return_nodes\<close> of \<open>join_returns\<close>.\<close>

fun rewire_returns :: "label \<Rightarrow> graph \<Rightarrow> label list \<Rightarrow> error + graph" where
  "rewire_returns solo g [] = Inr g"
| "rewire_returns solo g (rnode # rest) =
     (case dict_pop g rnode of
        Inl err \<Rightarrow> Inl err
      | Inr (blk, g1) \<Rightarrow>
          rewire_returns solo (add_node g1 (replace_jump_targets blk [solo])) rest)"

text \<open>
  \<open>BlockMap.join_returns\<close>, from the counter and the graph to the new counter and the
  new graph.
\<close>

definition join_returns :: "int \<Rightarrow> graph \<Rightarrow> error + (int \<times> graph)" where
  "join_returns clg g =
     (let rs = return_nodes g in
      if length rs > 1 then
        (let return_solo_label = ControlLabel clg;
             return_solo_block = BasicBlock \<lparr>bb_begin = return_solo_label,
               bb_end = ControlLabel (clg + 1), fallthrough = False,
               jump_targets = [], backedges = []\<rparr>
         in case rewire_returns return_solo_label (add_node g return_solo_block) rs of
              Inl err \<Rightarrow> Inl err
            | Inr g' \<Rightarrow> Inr (clg + 2, g'))
      else Inr (clg, g))"

text \<open>
  The invariant of a map whose nodes were all stored by \<open>add_node\<close>: every key is the
  \<open>begin\<close> label of its block.
\<close>

definition keyed_by_begin :: "graph \<Rightarrow> bool" where
  "keyed_by_begin g = list_all (\<lambda>(k, blk). bb_begin (base blk) = k) g"

text \<open>The labels of the terminating nodes of a map, as a set.\<close>

definition terminating :: "graph \<Rightarrow> label set" where
  "terminating g = {k. \<exists>blk. map_of g k = Some blk \<and> is_exiting blk}"

section \<open>Loop restructuring\<close>

text \<open>
  \<open>BlockMap.find_headers_and_entries\<close>: for every key outside \<open>loop\<close>, the jump targets of
  its block that lie in \<open>loop\<close> are headers, and the key is an entry when there is one.
\<close>

definition jumps_into :: "graph \<Rightarrow> label list \<Rightarrow> label \<Rightarrow> label list" where
  "jumps_into g loop node =
     (case map_of g node of
        None \<Rightarrow> []
      | Some blk \<Rightarrow> set_of_list [t \<leftarrow> jump_targets (base blk). t \<in> set loop])"

definition find_headers_and_entries :: "graph \<Rightarrow> label list \<Rightarrow> label list \<times> label list" where
  "find_headers_and_entries g loop =
     (let outside = [node \<leftarrow> dict_keys g. node \<notin> set loop]
      in (foldl (\<lambda>headers node. foldl set_add headers (jumps_into g loop node)) [] outside,
          [node \<leftarrow> outside. jumps_into g loop node \<noteq> []]))"

text \<open>\<open>find_exits\<close>; \<open>bbmap.graph[inside]\<close> raises \<open>KeyError\<close> for a label that is no key.\<close>

fun find_exits_loop ::
  "graph \<Rightarrow> label list \<Rightarrow> label list \<Rightarrow> label list \<Rightarrow> label list \<Rightarrow>
   error + (label list \<times> label list)" where
  "find_exits_loop g loop [] pre_exits post_exits = Inr (pre_exits, post_exits)"
| "find_exits_loop g loop (inside # rest) pre_exits post_exits =
     (case map_of g inside of
        None \<Rightarrow> Inl KeyError
      | Some blk \<Rightarrow>
          (let outs = [jt \<leftarrow> jump_targets (base blk). jt \<notin> set loop];
               pre1 = (if outs \<noteq> [] then set_add pre_exits inside else pre_exits);
               post1 = foldl set_add post_exits outs;
               pre2 = (if is_exiting blk then set_add pre1 inside else pre1)
           in find_exits_loop g loop rest pre2 post1))"

definition find_exits :: "label list \<Rightarrow> graph \<Rightarrow> error + (label list \<times> label list)" where
  "find_exits loop g = find_exits_loop g loop loop [] []"

text \<open>
  \<open>join_exits\<close>. The inner loop over the nodes of \<open>loop\<close>, for one exit node, and the outer
  loop over the exits. The four labels come from four calls of \<open>new_index\<close>.
\<close>

fun redirect_exit :: "label \<Rightarrow> label \<Rightarrow> graph \<Rightarrow> label list \<Rightarrow> error + graph" where
  "redirect_exit exit_node pre_exit_label g [] = Inr g"
| "redirect_exit exit_node pre_exit_label g (loop_node # rest) =
     (if loop_node = pre_exit_label then redirect_exit exit_node pre_exit_label g rest
      else
        (case map_of g loop_node of
           None \<Rightarrow> Inl KeyError
         | Some blk \<Rightarrow>
             if exit_node \<in> set (jump_targets (base blk)) then
               (let new_jump_targets =
                      [t \<leftarrow> jump_targets (base blk). t \<noteq> exit_node] @ [pre_exit_label]
                in case dict_pop g loop_node of
                     Inl err \<Rightarrow> Inl err
                   | Inr (b, g1) \<Rightarrow>
                       redirect_exit exit_node pre_exit_label
                         (add_node g1 (replace_jump_targets b new_jump_targets)) rest)
             else redirect_exit exit_node pre_exit_label g rest))"

fun redirect_exits :: "label list \<Rightarrow> label \<Rightarrow> label list \<Rightarrow> graph \<Rightarrow> error + graph" where
  "redirect_exits [] pre_exit_label loop g = Inr g"
| "redirect_exits (exit_node # rest) pre_exit_label loop g =
     (case redirect_exit exit_node pre_exit_label g loop of
        Inl err \<Rightarrow> Inl err
      | Inr g1 \<Rightarrow> redirect_exits rest pre_exit_label loop g1)"

definition join_exits ::
  "int \<Rightarrow> label list \<Rightarrow> graph \<Rightarrow> label list \<Rightarrow>
   error + (int \<times> label list \<times> graph \<times> label \<times> label)" where
  "join_exits c loop g exits =
     (let pre_exit_label = ControlLabel c;
          post_exit_label = ControlLabel (c + 1);
          loop1 = set_add loop pre_exit_label;
          post_exit_block = mk_bb post_exit_label (ControlLabel (c + 2)) False exits;
          pre_exit_block = mk_bb pre_exit_label (ControlLabel (c + 3)) False [post_exit_label];
          g1 = add_node (add_node g pre_exit_block) post_exit_block
      in case redirect_exits exits pre_exit_label loop1 g1 of
           Inl err \<Rightarrow> Inl err
         | Inr g2 \<Rightarrow> Inr (c + 4, loop1, g2, pre_exit_label, post_exit_label))"

text \<open>
  The state the passes work on: the counter of the label generator and the store of the
  \<open>BlockMap\<close> objects. A block map is named by its address in the store; an address that
  was never allocated reads as the empty map.
\<close>

record state =
  clg :: int
  heap :: "graph list"

definition graph_at :: "state \<Rightarrow> nat \<Rightarrow> graph" where
  "graph_at st a = (if a < length (heap st) then heap st ! a else [])"

definition set_graph :: "state \<Rightarrow> nat \<Rightarrow> graph \<Rightarrow> state" where
  "set_graph st a g = st\<lparr>heap := (heap st)[a := g]\<rparr>"

definition alloc :: "state \<Rightarrow> graph \<Rightarrow> state \<times> nat" where
  "alloc st g = (st\<lparr>heap := heap st @ [g]\<rparr>, length (heap st))"

text \<open>
  The choice of \<open>pre_exit_label\<close> and \<open>post_exit_label\<close> in the loop of \<open>restructure_loop\<close>.
  The two locals are bound together or not at all, so they are one optional pair that
  lives across the iterations. The middle branch builds an \<open>Exception\<close> and does not raise
  it: the locals keep what the iteration before left in them, and the statement after
  the branches, which reads \<open>pre_exit_label\<close>, raises \<open>UnboundLocalError\<close> when there was
  none.
\<close>

type_synonym exit_vars = "(label \<times> label) option"

definition select_exits ::
  "int \<Rightarrow> graph \<Rightarrow> label list \<Rightarrow> exit_vars \<Rightarrow>
   error + (int \<times> label list \<times> graph \<times> label \<times> label)" where
  "select_exits c g loop vars =
     (case find_exits loop g of
        Inl err \<Rightarrow> Inl err
      | Inr (pre_exits, post_exits) \<Rightarrow>
          if length post_exits \<noteq> 1 then join_exits c loop g post_exits
          else if length pre_exits \<noteq> 1 then
            (case vars of
               None \<Rightarrow> Inl UnboundLocalError
             | Some (pre_exit_label, post_exit_label) \<Rightarrow>
                 Inr (c, loop, g, pre_exit_label, post_exit_label))
          else Inr (c, loop, g, hd pre_exits, hd post_exits))"

text \<open>
  \<open>insiders = {bbmap.graph.pop(k) for k in loop}\<close>. The blocks go into a set, so they are
  hashed: a \<open>RegionBlock\<close> holds a dict and raises \<open>TypeError\<close>.
\<close>

fun pop_insiders :: "graph \<Rightarrow> label list \<Rightarrow> bb list \<Rightarrow> error + (bb list \<times> graph)" where
  "pop_insiders g [] insiders = Inr (insiders, g)"
| "pop_insiders g (k # ks) insiders =
     (case dict_pop g k of
        Inl err \<Rightarrow> Inl err
      | Inr (BasicBlock b, g1) \<Rightarrow> pop_insiders g1 ks (set_add insiders b)
      | Inr (RegionBlock b kd h s e, g1) \<Rightarrow> Inl TypeError)"

text \<open>The dict comprehension \<open>loop_body\<close>, and the one of the \<open>headers\<close> argument.\<close>

fun loop_body_of :: "label \<Rightarrow> label list \<Rightarrow> bb list \<Rightarrow> graph \<Rightarrow> error + graph" where
  "loop_body_of loop_head headers [] body = Inr body"
| "loop_body_of loop_head headers (node # rest) body =
     (if bb_begin node \<in> set headers then loop_body_of loop_head headers rest body
      else
        (case replace_backedge (BasicBlock node) loop_head of
           Inl err \<Rightarrow> Inl err
         | Inr blk \<Rightarrow> loop_body_of loop_head headers rest (dict_set body (bb_begin node) blk)))"

definition header_nodes :: "label list \<Rightarrow> bb list \<Rightarrow> (label \<times> bb) list" where
  "header_nodes headers insiders =
     foldl (\<lambda>d node. dict_set d (bb_begin node) node) []
       [node \<leftarrow> insiders. bb_begin node \<in> set headers]"

text \<open>
  One iteration of the loop \<open>for loop in loops\<close> on the block map at address \<open>a\<close>; \<open>rec\<close>
  is the recursive call on the new subregion. The result is the new state and the two
  locals.
\<close>

definition loop_step ::
  "(state \<Rightarrow> nat \<Rightarrow> (error + state) option) \<Rightarrow> state \<Rightarrow> nat \<Rightarrow> exit_vars \<Rightarrow> label list \<Rightarrow>
   (error + state \<times> exit_vars) option" where
  "loop_step rec st a vars loop =
     (let g = graph_at st a;
          headers = fst (find_headers_and_entries g loop)
      in case select_exits (clg st) g loop vars of
           Inl err \<Rightarrow> Some (Inl err)
         | Inr (c1, loop1, g1, pre_exit_label, post_exit_label) \<Rightarrow>
             (case pop_insiders g1 loop1 [] of
                Inl err \<Rightarrow> Some (Inl err)
              | Inr (insiders, g2) \<Rightarrow>
                  if length headers \<noteq> 1 then Some (Inl AssertionError)
                  else
                    (let loop_head = hd headers
                     in case loop_body_of loop_head headers insiders [] of
                          Inl err \<Rightarrow> Some (Inl err)
                        | Inr loop_body \<Rightarrow>
                            (case next_inst_offset loop_head of
                               Inl err \<Rightarrow> Some (Inl err)
                             | Inr end_label \<Rightarrow>
                                 (let (st1, sub) =
                                        alloc (set_graph (st\<lparr>clg := c1\<rparr>) a g2) loop_body;
                                      blk = RegionBlock
                                        \<lparr>bb_begin = loop_head, bb_end = end_label,
                                         fallthrough = False,
                                         jump_targets = [post_exit_label], backedges = []\<rparr>
                                        ''loop'' (HeadersDict (header_nodes headers insiders))
                                        sub (Some pre_exit_label)
                                  in case rec st1 sub of
                                       None \<Rightarrow> None
                                     | Some (Inl err) \<Rightarrow> Some (Inl err)
                                     | Some (Inr st2) \<Rightarrow>
                                         Some (Inr
                                           (set_graph st2 a (dict_set (graph_at st2 a) loop_head blk),
                                            Some (pre_exit_label, post_exit_label))))))))"

fun for_loops ::
  "(state \<Rightarrow> nat \<Rightarrow> (error + state) option) \<Rightarrow> state \<Rightarrow> nat \<Rightarrow> exit_vars \<Rightarrow> label list list \<Rightarrow>
   (error + state) option" where
  "for_loops rec st a vars [] = Some (Inr st)"
| "for_loops rec st a vars (loop # rest) =
     (case loop_step rec st a vars loop of
        None \<Rightarrow> None
      | Some (Inl err) \<Rightarrow> Some (Inl err)
      | Some (Inr (st1, vars1)) \<Rightarrow> for_loops rec st1 a vars1 rest)"

text \<open>The list \<open>loops\<close>: the components with more than one label.\<close>

definition loops_of :: "sccfun \<Rightarrow> graph \<Rightarrow> label list list" where
  "loops_of sccf g = [nodes \<leftarrow> compute_scc sccf g. length nodes > 1]"

text \<open>
  \<open>restructure_loop\<close> on the block map at address \<open>a\<close>. The recursion on the subregions is
  bounded by the first argument: \<open>None\<close> means that the bound was reached, \<open>Some (Inl e)\<close>
  that the call raised \<open>e\<close>, \<open>Some (Inr st)\<close> that it returned and left the state \<open>st\<close>.
\<close>

primrec restructure_loop :: "nat \<Rightarrow> sccfun \<Rightarrow> state \<Rightarrow> nat \<Rightarrow> (error + state) option" where
  "restructure_loop 0 sccf st a = None"
| "restructure_loop (Suc n) sccf st a =
     for_loops (restructure_loop n sccf) st a None (loops_of sccf (graph_at st a))"

section \<open>Dominator engine\<close>

text \<open>
  The tables of \<open>_doms\<close>: \<open>preds_table[dst]\<close> is the set of the keys whose block jumps to
  \<open>dst\<close>, \<open>succs_table[src]\<close> the set of the jump targets of \<open>src\<close>, both only for targets
  that are keys of the map. The tables are \<open>defaultdict(set)\<close>: a label without an entry
  has the empty set.
\<close>

definition doms_preds_table :: "graph \<Rightarrow> label \<Rightarrow> label list" where
  "doms_preds_table g dst = [src \<leftarrow> dict_keys g. dst \<in> set (graph_succs g src)]"

definition doms_succs_table :: "graph \<Rightarrow> label \<Rightarrow> label list" where
  "doms_succs_table g src = set_of_list (graph_succs g src)"

text \<open>\<open>[doms[p] for p in preds]\<close>, and \<open>functools.reduce(set.intersection, ...)\<close> on it.\<close>

fun lookup_all :: "(label \<times> label list) list \<Rightarrow> label list \<Rightarrow> error + label list list" where
  "lookup_all dmap [] = Inr []"
| "lookup_all dmap (p # ps) =
     (case map_of dmap p of
        None \<Rightarrow> Inl KeyError
      | Some d \<Rightarrow>
          (case lookup_all dmap ps of
             Inl err \<Rightarrow> Inl err
           | Inr ds \<Rightarrow> Inr (d # ds)))"

definition set_intersection :: "label list \<Rightarrow> label list \<Rightarrow> label list" where
  "set_intersection xs ys = [x \<leftarrow> xs. x \<in> set ys]"

fun reduce_intersection :: "label list list \<Rightarrow> label list" where
  "reduce_intersection [] = []"
| "reduce_intersection (d # ds) = foldl set_intersection d ds"

text \<open>The sum of the sizes of the sets of a dominator map.\<close>

definition doms_size :: "(label \<times> label list) list \<Rightarrow> nat" where
  "doms_size dmap = sum_list (map (\<lambda>(k, v). card (set v)) dmap)"

lemma doms_size_update:
  "map_of dmap n = Some old \<Longrightarrow> card (set new) < card (set old) \<Longrightarrow>
   doms_size (AList.update n new dmap) < doms_size dmap"
  by (induction dmap) (auto simp: doms_size_def split: if_splits)

text \<open>
  The loop \<open>while todo\<close> of \<open>_find_dominators_internal\<close>. \<open>todo.pop()\<close> takes the last
  element, \<open>todo.extend\<close> appends. The loop ends: a step that changes a set has passed
  the assertion that the set got smaller, and a step that changes none shortens \<open>todo\<close>.
\<close>

function dom_loop ::
  "label list \<Rightarrow> (label \<Rightarrow> label list) \<Rightarrow> (label \<Rightarrow> label list) \<Rightarrow>
   (label \<times> label list) list \<Rightarrow> label list \<Rightarrow> error + (label \<times> label list) list" where
  "dom_loop entries preds_table succs_table dmap todo =
     (if todo = [] then Inr dmap
      else
        (let n = last todo; todo1 = butlast todo
         in if n \<in> set entries then dom_loop entries preds_table succs_table dmap todo1
            else
              (case lookup_all dmap (preds_table n) of
                 Inl err \<Rightarrow> Inl err
               | Inr ds \<Rightarrow>
                   (let new_doms = (if preds_table n = [] then [n]
                                    else foldl set_add [n] (reduce_intersection ds))
                    in case map_of dmap n of
                         None \<Rightarrow> Inl KeyError
                       | Some old \<Rightarrow>
                           if set new_doms \<noteq> set old then
                             if card (set new_doms) < card (set old)
                             then dom_loop entries preds_table succs_table
                                    (dict_set dmap n new_doms) (todo1 @ succs_table n)
                             else Inl AssertionError
                           else dom_loop entries preds_table succs_table dmap todo1))))"
  by pat_completeness auto
termination
  by (relation "measures [\<lambda>(e, p, s, dmap, todo). doms_size dmap,
                          \<lambda>(e, p, s, dmap, todo). length todo]")
     (auto simp: dict_set_def doms_size_update)

declare dom_loop.simps [simp del]

text \<open>
  \<open>_find_dominators_internal\<close>: the entries dominate themselves, every other node starts
  with all nodes and is put on \<open>todo\<close>.
\<close>

definition find_dominators_internal ::
  "label list \<Rightarrow> label list \<Rightarrow> (label \<Rightarrow> label list) \<Rightarrow> (label \<Rightarrow> label list) \<Rightarrow>
   error + (label \<times> label list) list" where
  "find_dominators_internal entries nodes preds_table succs_table =
     (if entries = [] then Inl RuntimeError
      else
        (let doms0 = foldl (\<lambda>d e. dict_set d e [e]) [] entries;
             others = [n \<leftarrow> nodes. n \<notin> set entries];
             doms1 = foldl (\<lambda>d n. dict_set d n (set_of_list nodes)) doms0 others
         in dom_loop entries preds_table succs_table doms1 others))"

text \<open>\<open>_doms\<close>: the entries are the keys without a predecessor in the map.\<close>

definition doms_entries :: "graph \<Rightarrow> label list" where
  "doms_entries g = [k \<leftarrow> dict_keys g. doms_preds_table g k = []]"

definition doms :: "graph \<Rightarrow> error + (label \<times> label list) list" where
  "doms g =
     find_dominators_internal (doms_entries g) (dict_keys g)
       (doms_preds_table g) (doms_succs_table g)"

text \<open>
  The dominator set of a node in a computed map, and the right-hand side of the
  dominator equation: the node itself and what dominates all its predecessors.
\<close>

definition dom_set :: "(label \<times> label list) list \<Rightarrow> label \<Rightarrow> label set" where
  "dom_set dmap n = (case map_of dmap n of None \<Rightarrow> {} | Some d \<Rightarrow> set d)"

definition dom_rhs :: "(label \<Rightarrow> label list) \<Rightarrow> (label \<times> label list) list \<Rightarrow> label \<Rightarrow> label set" where
  "dom_rhs preds dmap n =
     insert n (if preds n = [] then {} else (\<Inter>p \<in> set (preds n). dom_set dmap p))"

text \<open>
  What the loop relies on in its tables, and what it keeps true of the map and of \<open>todo\<close>:
  the entries have their own singleton, no set is smaller than the right-hand side of its
  equation, and a node that is not on \<open>todo\<close> satisfies its equation.
\<close>

definition graph_ok :: "label list \<Rightarrow> label list \<Rightarrow> (label \<Rightarrow> label list) \<Rightarrow> (label \<Rightarrow> label list) \<Rightarrow> bool" where
  "graph_ok entries nodes preds succs \<longleftrightarrow>
     set entries \<subseteq> set nodes \<and> (\<forall>n. set (succs n) \<subseteq> set nodes) \<and>
     (\<forall>n. set (preds n) \<subseteq> set nodes) \<and>
     (\<forall>n p. p \<in> set (preds n) \<longrightarrow> n \<in> set (succs p))"

definition dom_inv ::
  "label list \<Rightarrow> label list \<Rightarrow> (label \<Rightarrow> label list) \<Rightarrow> (label \<times> label list) list \<Rightarrow> label list \<Rightarrow> bool" where
  "dom_inv entries nodes preds dmap todo \<longleftrightarrow>
     fst ` set dmap = set nodes \<and>
     (\<forall>e\<in>set entries. dom_set dmap e = {e}) \<and>
     (\<forall>n\<in>set nodes - set entries. dom_rhs preds dmap n \<subseteq> dom_set dmap n) \<and>
     (\<forall>n\<in>set nodes - set entries. n \<notin> set todo \<longrightarrow> dom_set dmap n = dom_rhs preds dmap n) \<and>
     set todo \<subseteq> set nodes"

section \<open>Immediate dominators and postdominators\<close>

text \<open>
  \<open>_post_doms\<close>: the entries are the keys without a jump target in the map, and the two
  tables change places.
\<close>

definition post_doms :: "graph \<Rightarrow> error + (label \<times> label list) list" where
  "post_doms g =
     find_dominators_internal [k \<leftarrow> dict_keys g. graph_succs g k = []] (dict_keys g)
       (doms_succs_table g) (doms_preds_table g)"

text \<open>
  \<open>_imm_doms\<close>. The loop \<open>for v in list(vs): vs -= idoms[v]\<close> changes the set stored under
  \<open>k\<close> in place; one pass of \<open>for k, vs in idoms.items()\<close>; the loop \<open>while changed\<close>, which
  ends because a pass that reports a change has made a set smaller; and the final loop
  that unpacks the sets of one element (\<open>[v] = vs\<close> raises \<open>ValueError\<close> on a larger set).
\<close>

fun imm_inner ::
  "(label \<times> label list) list \<Rightarrow> label \<Rightarrow> label list \<Rightarrow> error + (label \<times> label list) list" where
  "imm_inner idoms k [] = Inr idoms"
| "imm_inner idoms k (v # rest) =
     (case map_of idoms v of
        None \<Rightarrow> Inl KeyError
      | Some dv \<Rightarrow>
          (case map_of idoms k of
             None \<Rightarrow> Inl KeyError
           | Some vs \<Rightarrow> imm_inner (dict_set idoms k [x \<leftarrow> vs. x \<notin> set dv]) k rest))"

fun imm_pass ::
  "(label \<times> label list) list \<Rightarrow> label list \<Rightarrow> bool \<Rightarrow>
   error + ((label \<times> label list) list \<times> bool)" where
  "imm_pass idoms [] changed = Inr (idoms, changed)"
| "imm_pass idoms (k # ks) changed =
     (case map_of idoms k of
        None \<Rightarrow> Inl KeyError
      | Some vs \<Rightarrow>
          (case imm_inner idoms k vs of
             Inl err \<Rightarrow> Inl err
           | Inr idoms1 \<Rightarrow>
               (case map_of idoms1 k of
                  None \<Rightarrow> Inl KeyError
                | Some vs1 \<Rightarrow>
                    imm_pass idoms1 ks (changed \<or> card (set vs1) < card (set vs)))))"

lemma doms_size_update_eq:
  "map_of dmap n = Some old \<Longrightarrow>
   doms_size (AList.update n new dmap) + card (set old) = doms_size dmap + card (set new)"
  by (induction dmap) (auto simp: doms_size_def split: if_splits)

lemma imm_inner_size:
  "imm_inner idoms k rest = Inr idoms1 \<Longrightarrow> map_of idoms k = Some vs \<Longrightarrow>
   \<exists>vs1. map_of idoms1 k = Some vs1 \<and> card (set vs1) \<le> card (set vs) \<and>
     doms_size idoms1 + card (set vs) = doms_size idoms + card (set vs1)"
proof (induction rest arbitrary: idoms vs)
  case Nil
  then show ?case by auto
next
  case (Cons v rest)
  from Cons.prems obtain dv where dv: "map_of idoms v = Some dv"
    by (auto split: option.splits)
  let ?vs' = "[x \<leftarrow> vs. x \<notin> set dv]"
  let ?i' = "dict_set idoms k ?vs'"
  have step: "imm_inner ?i' k rest = Inr idoms1"
    using Cons.prems dv by simp
  have m: "map_of ?i' k = Some ?vs'" by (simp add: dict_set_def update_conv')
  from Cons.IH [OF step m] obtain vs1 where vs1: "map_of idoms1 k = Some vs1"
    "card (set vs1) \<le> card (set ?vs')"
    "doms_size idoms1 + card (set ?vs') = doms_size ?i' + card (set vs1)" by blast
  have le: "card (set ?vs') \<le> card (set vs)" by (intro card_mono) auto
  have "doms_size ?i' + card (set vs) = doms_size idoms + card (set ?vs')"
    using doms_size_update_eq [OF Cons.prems(2)] by (simp add: dict_set_def)
  with vs1 le show ?case by auto
qed

lemma imm_pass_size:
  "imm_pass idoms ks changed = Inr (idoms', changed') \<Longrightarrow>
   doms_size idoms' \<le> doms_size idoms \<and>
   (changed' \<and> \<not> changed \<longrightarrow> doms_size idoms' < doms_size idoms)"
proof (induction ks arbitrary: idoms changed)
  case Nil
  then show ?case by auto
next
  case (Cons k ks)
  from Cons.prems obtain vs idoms1 vs1 where
    vs: "map_of idoms k = Some vs" and i1: "imm_inner idoms k vs = Inr idoms1"
    and vs1: "map_of idoms1 k = Some vs1"
    and rest: "imm_pass idoms1 ks (changed \<or> card (set vs1) < card (set vs)) = Inr (idoms', changed')"
    by (auto split: option.splits sum.splits)
  from imm_inner_size [OF i1 vs] vs1
  have sz: "card (set vs1) \<le> card (set vs)"
    "doms_size idoms1 + card (set vs) = doms_size idoms + card (set vs1)" by auto
  from Cons.IH [OF rest] sz show ?case by auto
qed

function imm_loop :: "(label \<times> label list) list \<Rightarrow> error + (label \<times> label list) list" where
  "imm_loop idoms =
     (case imm_pass idoms (dict_keys idoms) False of
        Inl err \<Rightarrow> Inl err
      | Inr (idoms1, changed) \<Rightarrow> if changed then imm_loop idoms1 else Inr idoms1)"
  by pat_completeness auto
termination
  by (relation "measure doms_size") (auto dest: imm_pass_size)

declare imm_loop.simps [simp del]

fun imm_out :: "(label \<times> label list) list \<Rightarrow> (label \<times> label) list \<Rightarrow> error + (label \<times> label) list" where
  "imm_out [] out = Inr out"
| "imm_out ((k, vs) # rest) out =
     (case vs of
        [] \<Rightarrow> imm_out rest out
      | [v] \<Rightarrow> imm_out rest (dict_set out k v)
      | _ \<Rightarrow> Inl ValueError)"

definition imm_doms :: "(label \<times> label list) list \<Rightarrow> error + (label \<times> label) list" where
  "imm_doms dmap =
     (case imm_loop (map (\<lambda>(k, v). (k, [x \<leftarrow> set_of_list v. x \<noteq> k])) dmap) of
        Inl err \<Rightarrow> Inl err
      | Inr idoms \<Rightarrow> imm_out idoms [])"

section \<open>Branch restructuring\<close>

text \<open>The jump targets of all blocks of a map, and those of the block at a label.\<close>

definition all_targets :: "graph \<Rightarrow> label list" where
  "all_targets g = concat (map (\<lambda>(k, blk). jump_targets (base blk)) g)"

definition targets_of :: "graph \<Rightarrow> label \<Rightarrow> label list" where
  "targets_of g k = (case map_of g k of None \<Rightarrow> [] | Some blk \<Rightarrow> jump_targets (base blk))"

lemma targets_of_subset: "set (targets_of g k) \<subseteq> set (all_targets g)"
proof (cases "map_of g k")
  case None
  then show ?thesis by (simp add: targets_of_def)
next
  case (Some blk)
  then have "(k, blk) \<in> set g" by (rule map_of_SomeD)
  then show ?thesis by (force simp: targets_of_def all_targets_def Some)
qed

text \<open>
  The loop of \<open>is_reachable_dfs\<close>: \<open>to_vist.pop()\<close> takes the last element. It ends, since
  every label is added to \<open>seen\<close> at most once.
\<close>

function dfs_loop :: "graph \<Rightarrow> label \<Rightarrow> label list \<Rightarrow> label list \<Rightarrow> bool" where
  "dfs_loop g end_label to_vist seen =
     (if to_vist = [] then False
      else
        (let block = last to_vist; rest = butlast to_vist
         in if block \<in> set seen then dfs_loop g end_label rest seen
            else if block = end_label then True
            else dfs_loop g end_label (rest @ targets_of g block) (set_add seen block)))"
  by pat_completeness auto
termination
proof (relation "measures [\<lambda>(g, e, tv, seen). card ((set tv \<union> set (all_targets g)) - set seen),
                            \<lambda>(g, e, tv, seen). length tv]", goal_cases)
  case 1
  then show ?case by simp
next
  case (2 g end_label to_vist seen x xa)
  have "(set xa \<union> set (all_targets g)) - set seen \<subseteq> (set to_vist \<union> set (all_targets g)) - set seen"
    using 2 by (auto dest: in_set_butlastD)
  then have "card ((set xa \<union> set (all_targets g)) - set seen)
               \<le> card ((set to_vist \<union> set (all_targets g)) - set seen)"
    by (intro card_mono) auto
  moreover have "length xa < length to_vist" using 2 by simp
  ultimately show ?case by auto
next
  case (3 g end_label to_vist seen x xa)
  let ?U = "(set to_vist \<union> set (all_targets g)) - set seen"
  let ?U' = "(set (xa @ targets_of g x) \<union> set (all_targets g)) - set (set_add seen x)"
  have "x \<in> set to_vist" using 3 by simp
  then have "x \<in> ?U" using 3 by simp
  moreover have "x \<notin> ?U'" by (simp add: set_add_def)
  moreover have "?U' \<subseteq> ?U"
    using 3 targets_of_subset [of g x] by (auto simp: set_add_def dest: in_set_butlastD)
  ultimately have "?U' \<subset> ?U" by blast
  then have "card ?U' < card ?U" by (intro psubset_card_mono) auto
  then show ?case by simp
qed

declare dfs_loop.simps [simp del]

text \<open>\<open>is_reachable_dfs\<close>; \<open>bbmap.graph[begin]\<close> raises \<open>KeyError\<close> for a label that is no key.\<close>

definition is_reachable_dfs :: "graph \<Rightarrow> label \<Rightarrow> label \<Rightarrow> error + bool" where
  "is_reachable_dfs g begin_label end_label =
     (case map_of g begin_label of
        None \<Rightarrow> Inl KeyError
      | Some blk \<Rightarrow> Inr (dfs_loop g end_label (jump_targets (base blk)) []))"

text \<open>\<open>BlockMap.find_head\<close>: the keys that are the jump target of no block; exactly one.\<close>

definition find_head :: "graph \<Rightarrow> error + label" where
  "find_head g =
     (let heads = [k \<leftarrow> dict_keys g. k \<notin> set (concat (map (targets_of g) (dict_keys g)))]
      in if length heads \<noteq> 1 then Inl AssertionError else Inr (hd heads))"

text \<open>
  The loops \<open>bbmap.add_node(bbmap.graph.pop(block).replace_jump_targets(...))\<close> of
  \<open>join_headers\<close> and \<open>join_pre_exits\<close>, and the two functions. The jump targets of the
  new entry block are \<open>tuple(headers)\<close> of a set with more than one member: the members
  are those of the code, their order here is the insertion order and in the code the
  order of the hashes.
\<close>

fun retarget_nodes :: "label \<Rightarrow> graph \<Rightarrow> label list \<Rightarrow> error + graph" where
  "retarget_nodes target g [] = Inr g"
| "retarget_nodes target g (node # rest) =
     (case dict_pop g node of
        Inl err \<Rightarrow> Inl err
      | Inr (blk, g1) \<Rightarrow>
          retarget_nodes target (add_node g1 (replace_jump_targets blk [target])) rest)"

definition join_headers ::
  "int \<Rightarrow> label list \<Rightarrow> label list \<Rightarrow> graph \<Rightarrow> error + (int \<times> graph \<times> label)" where
  "join_headers c headers entries g =
     (if \<not> length headers > 1 then Inl AssertionError
      else
        (let synth_entry_label = ControlLabel c;
             synth_entry_block = mk_bb synth_entry_label (ControlLabel (c + 1)) False headers
         in case retarget_nodes synth_entry_label (add_node g synth_entry_block) entries of
              Inl err \<Rightarrow> Inl err
            | Inr g1 \<Rightarrow> Inr (c + 2, g1, synth_entry_label)))"

definition join_pre_exits ::
  "int \<Rightarrow> label list \<Rightarrow> label \<Rightarrow> label list \<Rightarrow> graph \<Rightarrow>
   error + (int \<times> graph \<times> label list \<times> label)" where
  "join_pre_exits c exits post_exit inner_nodes g =
     (let pre_exit_label = ControlLabel c;
          pre_exit_block = mk_bb pre_exit_label (ControlLabel (c + 1)) False [post_exit];
          g1 = add_node g pre_exit_block;
          inner1 = set_add inner_nodes pre_exit_label
      in case retarget_nodes pre_exit_label g1 exits of
           Inl err \<Rightarrow> Inl err
         | Inr g2 \<Rightarrow> Inr (c + 2, g2, inner1, pre_exit_label))"

text \<open>
  The walk \<open>while True\<close> from the head to \<open>begin\<close> along the first jump target. A walk that
  has looked up more labels than the map has keys is in a cycle without \<open>begin\<close> and never
  ends; with the bound \<open>Suc (length g)\<close> the result \<open>None\<close> stands for that.
\<close>

primrec head_walk :: "nat \<Rightarrow> graph \<Rightarrow> label \<Rightarrow> label \<Rightarrow> (error + label list) option" where
  "head_walk 0 g begin_label current_block = None"
| "head_walk (Suc n) g begin_label current_block =
     (if current_block = begin_label then Some (Inr [current_block])
      else
        (case map_of g current_block of
           None \<Rightarrow> Some (Inl KeyError)
         | Some blk \<Rightarrow>
             (case jump_targets (base blk) of
                [] \<Rightarrow> Some (Inl IndexError)
              | t # _ \<Rightarrow>
                  map_option (map_sum id (\<lambda>w. current_block # w))
                    (head_walk n g begin_label t))))"

text \<open>
  \<open>subgraph.add_node(bbmap.graph[block])\<close> and \<open>del bbmap.graph[block]\<close> for the labels of a
  list.
\<close>

fun collect_nodes :: "graph \<Rightarrow> label list \<Rightarrow> graph \<Rightarrow> error + graph" where
  "collect_nodes g [] subgraph = Inr subgraph"
| "collect_nodes g (k # ks) subgraph =
     (case map_of g k of
        None \<Rightarrow> Inl KeyError
      | Some blk \<Rightarrow> collect_nodes g ks (add_node subgraph blk))"

fun delete_nodes :: "graph \<Rightarrow> label list \<Rightarrow> error + graph" where
  "delete_nodes g [] = Inr g"
| "delete_nodes g (k # ks) =
     (case dict_pop g k of
        Inl err \<Rightarrow> Inl err
      | Inr (blk, g1) \<Rightarrow> delete_nodes g1 ks)"

text \<open>
  The head region: the nodes of the walk go into a new subregion, and the region block
  is stored under \<open>begin\<close>. Its \<open>headers\<close> is the tuple \<open>(head,)\<close>.
\<close>

definition extract_head :: "state \<Rightarrow> graph \<Rightarrow> label \<Rightarrow> (error + state \<times> graph) option" where
  "extract_head st g begin_label =
     (case find_head g of
        Inl err \<Rightarrow> Some (Inl err)
      | Inr head \<Rightarrow>
          (case head_walk (Suc (length g)) g begin_label head of
             None \<Rightarrow> None
           | Some (Inl err) \<Rightarrow> Some (Inl err)
           | Some (Inr head_subregion) \<Rightarrow>
               (case collect_nodes g head_subregion [] of
                  Inl err \<Rightarrow> Some (Inl err)
                | Inr subgraph \<Rightarrow>
                    (case map_of g begin_label of
                       None \<Rightarrow> Some (Inl KeyError)
                     | Some begin_blk \<Rightarrow>
                         (let (st1, sub) = alloc st subgraph;
                              subregion = RegionBlock
                                \<lparr>bb_begin = head, bb_end = begin_label, fallthrough = False,
                                 jump_targets = jump_targets (base begin_blk), backedges = []\<rparr>
                                ''head'' (HeadersTuple [head]) sub None
                          in case delete_nodes g head_subregion of
                               Inl err \<Rightarrow> Some (Inl err)
                             | Inr g1 \<Rightarrow> Some (Inr (st1, dict_set g1 begin_label subregion)))))))"

text \<open>
  The two nested loops over the jump targets of \<open>begin\<close> that fill empty branch regions:
  the counter, the map, \<open>new_jump_targets\<close> and \<open>jump_targets_changed\<close> are carried along.
\<close>

fun fill_inner ::
  "label \<Rightarrow> label list \<Rightarrow> int \<Rightarrow> graph \<Rightarrow> label list \<Rightarrow> bool \<Rightarrow>
   error + (int \<times> graph \<times> label list \<times> bool)" where
  "fill_inner a [] c g new_jump_targets changed = Inr (c, g, new_jump_targets, changed)"
| "fill_inner a (b # bs) c g new_jump_targets changed =
     (if a = b then fill_inner a bs c g new_jump_targets changed
      else
        (case is_reachable_dfs g a b of
           Inl err \<Rightarrow> Inl err
         | Inr True \<Rightarrow>
             fill_inner a bs (c + 2)
               (add_node g (BasicBlock \<lparr>bb_begin = ControlLabel c, bb_end = ControlLabel (c + 1),
                  fallthrough = True, jump_targets = [b], backedges = []\<rparr>))
               (new_jump_targets @ [ControlLabel c]) True
         | Inr False \<Rightarrow> fill_inner a bs c g (new_jump_targets @ [b]) changed))"

fun fill_outer ::
  "label list \<Rightarrow> label list \<Rightarrow> int \<Rightarrow> graph \<Rightarrow> label list \<Rightarrow> bool \<Rightarrow>
   error + (int \<times> graph \<times> label list \<times> bool)" where
  "fill_outer [] jts c g new_jump_targets changed = Inr (c, g, new_jump_targets, changed)"
| "fill_outer (a # as) jts c g new_jump_targets changed =
     (case fill_inner a jts c g new_jump_targets changed of
        Inl err \<Rightarrow> Inl err
      | Inr (c1, g1, new1, changed1) \<Rightarrow> fill_outer as jts c1 g1 new1 changed1)"

text \<open>
  The four analyses, in the order the source computes them: dominators, postdominators,
  immediate postdominators, immediate dominators.
\<close>

definition analyses ::
  "graph \<Rightarrow> error + ((label \<times> label list) list \<times> (label \<times> label) list \<times> (label \<times> label) list)" where
  "analyses g =
     (case doms g of
        Inl err \<Rightarrow> Inl err
      | Inr dmap \<Rightarrow>
          (case post_doms g of
             Inl err \<Rightarrow> Inl err
           | Inr postdoms \<Rightarrow>
               (case imm_doms postdoms of
                  Inl err \<Rightarrow> Inl err
                | Inr postimmdoms \<Rightarrow>
                    (case imm_doms dmap of
                       Inl err \<Rightarrow> Inl err
                     | Inr immdoms \<Rightarrow> Inr (dmap, immdoms, postimmdoms)))))"

text \<open>
  Empty branch regions: when a jump target of \<open>begin\<close> reaches another one, new blocks are
  put in and the block under \<open>begin\<close> is stored again, by \<open>add_node\<close>, with the new jump
  targets; then the analyses are computed again, of which only \<open>doms\<close> is read later.
\<close>

definition fill_empty_arms ::
  "int \<Rightarrow> graph \<Rightarrow> (label \<times> label list) list \<Rightarrow> label \<Rightarrow>
   error + (int \<times> graph \<times> (label \<times> label list) list)" where
  "fill_empty_arms c g dmap begin_label =
     (case map_of g begin_label of
        None \<Rightarrow> Inl KeyError
      | Some blk \<Rightarrow>
          (let jts = jump_targets (base blk)
           in case fill_outer jts jts c g [] False of
                Inl err \<Rightarrow> Inl err
              | Inr (c1, g1, new_jump_targets, changed) \<Rightarrow>
                  if changed then
                    (case dict_pop g1 begin_label of
                       Inl err \<Rightarrow> Inl err
                     | Inr (b, g2) \<Rightarrow>
                         (let g3 = add_node g2 (replace_jump_targets b new_jump_targets)
                          in case analyses g3 of
                               Inl err \<Rightarrow> Inl err
                             | Inr (dmap1, immdoms1, postimmdoms1) \<Rightarrow> Inr (c1, g3, dmap1)))
                  else Inr (c1, g1, dmap)))"

text \<open>
  The list \<open>branch_regions\<close>: for every jump target of \<open>begin\<close>, the keys of \<open>doms\<close> that it
  dominates and that \<open>end\<close> does not.
\<close>

definition branch_regions_of ::
  "graph \<Rightarrow> (label \<times> label list) list \<Rightarrow> label \<Rightarrow> label \<Rightarrow>
   error + (label \<times> label list) list" where
  "branch_regions_of g dmap begin_label end_label =
     (case map_of g begin_label of
        None \<Rightarrow> Inl KeyError
      | Some blk \<Rightarrow>
          Inr (map (\<lambda>bra_start.
                 (bra_start,
                  map fst [(k, kdom) \<leftarrow> dmap. bra_start \<in> set kdom \<and> end_label \<notin> set kdom]))
               (jump_targets (base blk))))"

text \<open>
  The tail region: what is left of the keys, closed by \<open>join_headers\<close> when it has more
  than one header. Its \<open>headers\<close> is the set of header labels, its subregion holds all
  nodes of the tail. The result carries the address of the subregion when it is to be
  restructured later. The \<open>end\<close> of the region is \<open>next(iter(exits))\<close>: a member of the set
  of exits, here the first in insertion order, in the code the first in the order of the
  hashes; the two agree when the tail has one exit.
\<close>

definition extract_tail ::
  "state \<Rightarrow> graph \<Rightarrow> (label \<times> label list) list \<Rightarrow> label \<Rightarrow>
   error + (state \<times> graph \<times> nat list)" where
  "extract_tail st g branch_regions begin_label =
     (let gone = concat (map (\<lambda>(b, sub). b # sub) branch_regions) @ [begin_label];
          tail0 = [b \<leftarrow> dict_keys g. b \<notin> set gone];
          (headers, entries) = find_headers_and_entries g tail0
      in case find_exits tail0 g of
           Inl err \<Rightarrow> Inl err
         | Inr (exits, post_exits) \<Rightarrow>
             (case (if length headers > 1
                    then (case join_headers (clg st) headers entries g of
                            Inl err \<Rightarrow> Inl err
                          | Inr (c1, g1, entry_label) \<Rightarrow>
                              Inr (c1, g1, set_add tail0 entry_label, entry_label))
                    else (case headers of
                            [] \<Rightarrow> Inl StopIteration
                          | h # _ \<Rightarrow> Inr (clg st, g, tail0, h))) of
                Inl err \<Rightarrow> Inl err
              | Inr (c1, g1, tail_subregion, entry_label) \<Rightarrow>
                  (case collect_nodes g1 tail_subregion [] of
                     Inl err \<Rightarrow> Inl err
                   | Inr subgraph \<Rightarrow>
                       (case exits of
                          [] \<Rightarrow> Inl StopIteration
                        | exit_label # _ \<Rightarrow>
                            (let (st1, sub) = alloc (st\<lparr>clg := c1\<rparr>) subgraph;
                                 subregion = RegionBlock
                                   \<lparr>bb_begin = entry_label, bb_end = exit_label,
                                    fallthrough = False, jump_targets = [], backedges = []\<rparr>
                                   ''tail'' (HeadersSet headers) sub None
                             in case delete_nodes g1 tail_subregion of
                                  Inl err \<Rightarrow> Inl err
                                | Inr g2 \<Rightarrow>
                                    Inr (st1, dict_set g2 entry_label subregion,
                                         if subgraph \<noteq> [] then [sub] else []))))))"

text \<open>
  The exit labels of one branch region, in the three cases of the source; the first two
  change the map and add the new pre-exit to \<open>inner_nodes\<close>.
\<close>

definition arm_exits ::
  "int \<Rightarrow> graph \<Rightarrow> label list \<Rightarrow> error + (int \<times> graph \<times> label list \<times> label \<times> label)" where
  "arm_exits c g inner_nodes =
     (case find_exits inner_nodes g of
        Inl err \<Rightarrow> Inl err
      | Inr (pre_exits, post_exits) \<Rightarrow>
          if length pre_exits \<noteq> 1 \<and> length post_exits = 1 then
            (case join_pre_exits c pre_exits (hd post_exits) inner_nodes g of
               Inl err \<Rightarrow> Inl err
             | Inr (c1, g1, inner1, pre_exit_label) \<Rightarrow>
                 Inr (c1, g1, inner1, pre_exit_label, hd post_exits))
          else if length pre_exits \<noteq> 1 \<and> length post_exits > 1 then
            (case join_exits c inner_nodes g post_exits of
               Inl err \<Rightarrow> Inl err
             | Inr (c1, inner1, g1, pre_exit_label, post_exit_label) \<Rightarrow>
                 Inr (c1, g1, inner1, pre_exit_label, post_exit_label))
          else
            (case pre_exits of
               [] \<Rightarrow> Inl StopIteration
             | pre_exit_label # _ \<Rightarrow>
                 (case map_of g pre_exit_label of
                    None \<Rightarrow> Inl KeyError
                  | Some blk \<Rightarrow>
                      (case jump_targets (base blk) of
                         [] \<Rightarrow> Inl IndexError
                       | post_exit_label # _ \<Rightarrow>
                           Inr (c, g, inner_nodes, pre_exit_label, post_exit_label)))))"

text \<open>
  The loop over \<open>branch_regions\<close> that builds the branch regions; \<open>queue\<close> is the list
  \<open>recursive_subregions\<close>.
\<close>

fun extract_arms ::
  "state \<Rightarrow> graph \<Rightarrow> label \<Rightarrow> (label \<times> label list) list \<Rightarrow> nat list \<Rightarrow>
   error + (state \<times> graph \<times> nat list)" where
  "extract_arms st g end_label [] queue = Inr (st, g, queue)"
| "extract_arms st g end_label ((bra_start, inner_nodes) # rest) queue =
     (if inner_nodes = [] then extract_arms st g end_label rest queue
      else
        (case arm_exits (clg st) g inner_nodes of
           Inl err \<Rightarrow> Inl err
         | Inr (c1, g1, inner1, pre_exit_label, post_exit_label) \<Rightarrow>
             (case collect_nodes g1 inner1 [] of
                Inl err \<Rightarrow> Inl err
              | Inr subgraph \<Rightarrow>
                  (let (st1, sub) = alloc (st\<lparr>clg := c1\<rparr>) subgraph;
                       subregion = RegionBlock
                         \<lparr>bb_begin = bra_start, bb_end = end_label, fallthrough = False,
                          jump_targets = [post_exit_label], backedges = []\<rparr>
                         ''branch'' (HeadersDict []) sub (Some pre_exit_label)
                   in case delete_nodes g1 inner1 of
                        Inl err \<Rightarrow> Inl err
                      | Inr g2 \<Rightarrow>
                          extract_arms st1 (dict_set g2 bra_start subregion) end_label rest
                            (if subgraph \<noteq> [] then queue @ [sub] else queue)))))"

text \<open>
  The body of the loop \<open>for begin, end in _iter_branch_regions(...)\<close> on the block map at
  address \<open>a\<close>. The local \<open>doms\<close> and the list \<open>recursive_subregions\<close> live across the
  iterations.
\<close>

definition branch_body ::
  "state \<Rightarrow> nat \<Rightarrow> (label \<times> label list) list \<Rightarrow> nat list \<Rightarrow> label \<Rightarrow> label \<Rightarrow>
   (error + state \<times> (label \<times> label list) list \<times> nat list) option" where
  "branch_body st a dmap queue begin_label end_label =
     (case extract_head st (graph_at st a) begin_label of
        None \<Rightarrow> None
      | Some (Inl err) \<Rightarrow> Some (Inl err)
      | Some (Inr (st1, g1)) \<Rightarrow>
          (case fill_empty_arms (clg st1) g1 dmap begin_label of
             Inl err \<Rightarrow> Some (Inl err)
           | Inr (c2, g2, dmap2) \<Rightarrow>
               (case branch_regions_of g2 dmap2 begin_label end_label of
                  Inl err \<Rightarrow> Some (Inl err)
                | Inr branch_regions \<Rightarrow>
                    (case extract_tail (st1\<lparr>clg := c2\<rparr>) g2 branch_regions begin_label of
                       Inl err \<Rightarrow> Some (Inl err)
                     | Inr (st3, g3, tail_queue) \<Rightarrow>
                         (case extract_arms st3 g3 end_label branch_regions (queue @ tail_queue) of
                            Inl err \<Rightarrow> Some (Inl err)
                          | Inr (st4, g4, queue4) \<Rightarrow>
                              Some (Inr (set_graph st4 a g4, dmap2, queue4)))))))"

text \<open>
  The loop over the generator \<open>_iter_branch_regions\<close>. The generator walks a copy of the
  items made before the first iteration and reads the two immediate-dominator maps it was
  given; it looks at the next item only after the body has run for the one before.
\<close>

fun for_branch_regions ::
  "(label \<times> label) list \<Rightarrow> (label \<times> label) list \<Rightarrow> nat \<Rightarrow> (label \<times> block) list \<Rightarrow>
   state \<Rightarrow> (label \<times> label list) list \<Rightarrow> nat list \<Rightarrow>
   (error + state \<times> nat list) option" where
  "for_branch_regions immdoms postimmdoms a [] st dmap queue = Some (Inr (st, queue))"
| "for_branch_regions immdoms postimmdoms a ((begin_label, node) # items) st dmap queue =
     (if length (jump_targets (base node)) > 1 then
        (case map_of postimmdoms begin_label of
           None \<Rightarrow> for_branch_regions immdoms postimmdoms a items st dmap queue
         | Some end_label \<Rightarrow>
             (case map_of immdoms end_label of
                None \<Rightarrow> Some (Inl KeyError)
              | Some d \<Rightarrow>
                  if d = begin_label then
                    (case branch_body st a dmap queue begin_label end_label of
                       None \<Rightarrow> None
                     | Some (Inl err) \<Rightarrow> Some (Inl err)
                     | Some (Inr (st1, dmap1, queue1)) \<Rightarrow>
                         for_branch_regions immdoms postimmdoms a items st1 dmap1 queue1)
                  else for_branch_regions immdoms postimmdoms a items st dmap queue))
      else for_branch_regions immdoms postimmdoms a items st dmap queue)"

text \<open>The final loop \<open>for region in recursive_subregions\<close>; \<open>rec\<close> is the recursive call.\<close>

fun for_subregions ::
  "(state \<Rightarrow> nat \<Rightarrow> (error + state) option) \<Rightarrow> state \<Rightarrow> nat list \<Rightarrow> (error + state) option" where
  "for_subregions rec st [] = Some (Inr st)"
| "for_subregions rec st (region # rest) =
     (case rec st region of
        None \<Rightarrow> None
      | Some (Inl err) \<Rightarrow> Some (Inl err)
      | Some (Inr st1) \<Rightarrow> for_subregions rec st1 rest)"

text \<open>
  \<open>restructure_branch\<close> on the block map at address \<open>a\<close>; the first argument bounds the
  depth of the recursion, as in \<open>restructure_loop\<close>.
\<close>

primrec restructure_branch :: "nat \<Rightarrow> state \<Rightarrow> nat \<Rightarrow> (error + state) option" where
  "restructure_branch 0 st a = None"
| "restructure_branch (Suc n) st a =
     (case analyses (graph_at st a) of
        Inl err \<Rightarrow> Some (Inl err)
      | Inr (dmap, immdoms, postimmdoms) \<Rightarrow>
          (case for_branch_regions immdoms postimmdoms a (graph_at st a) st dmap [] of
             None \<Rightarrow> None
           | Some (Inl err) \<Rightarrow> Some (Inl err)
           | Some (Inr (st1, queue)) \<Rightarrow> for_subregions (restructure_branch n) st1 queue))"

section \<open>Top-level orchestrator\<close>

text \<open>
  \<open>copy.deepcopy\<close> of a \<open>BlockMap\<close>: a new object for the map and for every subregion below
  it; blocks and labels are immutable values. The store of a run has no cycles, so the
  depth of a map is below the number of objects, which bounds the recursion.
\<close>

fun copy_blocks ::
  "(state \<Rightarrow> nat \<Rightarrow> (state \<times> nat) option) \<Rightarrow> state \<Rightarrow> graph \<Rightarrow> graph \<Rightarrow>
   (state \<times> graph) option" where
  "copy_blocks rec st [] acc = Some (st, acc)"
| "copy_blocks rec st ((k, BasicBlock b) # rest) acc =
     copy_blocks rec st rest (acc @ [(k, BasicBlock b)])"
| "copy_blocks rec st ((k, RegionBlock b kd h s e) # rest) acc =
     (case rec st s of
        None \<Rightarrow> None
      | Some (st1, s1) \<Rightarrow> copy_blocks rec st1 rest (acc @ [(k, RegionBlock b kd h s1 e)]))"

primrec deepcopy_bounded :: "nat \<Rightarrow> state \<Rightarrow> nat \<Rightarrow> (state \<times> nat) option" where
  "deepcopy_bounded 0 st a = None"
| "deepcopy_bounded (Suc n) st a =
     (case copy_blocks (deepcopy_bounded n) st (graph_at st a) [] of
        None \<Rightarrow> None
      | Some (st1, g) \<Rightarrow> Some (alloc st1 g))"

definition deepcopy :: "state \<Rightarrow> nat \<Rightarrow> (state \<times> nat) option" where
  "deepcopy st a = deepcopy_bounded (Suc (length (heap st))) st a"

text \<open>
  A \<open>ByteFlow\<close>: the instructions and the block map, an object of the store.
\<close>

record byteflow =
  bc :: "instruction list"
  bbmap :: nat

text \<open>
  \<open>ByteFlow.restructure\<close>. The copy is made first; \<open>join_returns\<close> is then called on
  \<open>self.bbmap\<close>, the map of the receiver, and the two passes on the copy. The result is
  the state after the call and the new flow.
\<close>

definition restructure ::
  "nat \<Rightarrow> sccfun \<Rightarrow> state \<Rightarrow> byteflow \<Rightarrow> (error + state \<times> byteflow) option" where
  "restructure n sccf st self =
     (case deepcopy st (bbmap self) of
        None \<Rightarrow> None
      | Some (st1, new_bbmap) \<Rightarrow>
          (case join_returns (clg st1) (graph_at st1 (bbmap self)) of
             Inl err \<Rightarrow> Some (Inl err)
           | Inr (c, g) \<Rightarrow>
               (case restructure_loop n sccf (set_graph (st1\<lparr>clg := c\<rparr>) (bbmap self) g)
                       new_bbmap of
                  None \<Rightarrow> None
                | Some (Inl err) \<Rightarrow> Some (Inl err)
                | Some (Inr st2) \<Rightarrow>
                    (case restructure_branch n st2 new_bbmap of
                       None \<Rightarrow> None
                     | Some (Inl err) \<Rightarrow> Some (Inl err)
                     | Some (Inr st3) \<Rightarrow>
                         Some (Inr (st3, \<lparr>bc = bc self, bbmap = new_bbmap\<rparr>))))))"

text \<open>
  The orchestrator as the spec words it, for comparison: "builds the initial graph,
  closes it to a single exit, then runs loop restructuring followed by branch
  restructuring", each step on the new map, the receiver's map left as it was.
\<close>

definition restructure_as_specified ::
  "nat \<Rightarrow> sccfun \<Rightarrow> state \<Rightarrow> byteflow \<Rightarrow> (error + state \<times> byteflow) option" where
  "restructure_as_specified n sccf st self =
     (case deepcopy st (bbmap self) of
        None \<Rightarrow> None
      | Some (st1, new_bbmap) \<Rightarrow>
          (case join_returns (clg st1) (graph_at st1 new_bbmap) of
             Inl err \<Rightarrow> Some (Inl err)
           | Inr (c, g) \<Rightarrow>
               (case restructure_loop n sccf (set_graph (st1\<lparr>clg := c\<rparr>) new_bbmap g)
                       new_bbmap of
                  None \<Rightarrow> None
                | Some (Inl err) \<Rightarrow> Some (Inl err)
                | Some (Inr st2) \<Rightarrow>
                    (case restructure_branch n st2 new_bbmap of
                       None \<Rightarrow> None
                     | Some (Inl err) \<Rightarrow> Some (Inl err)
                     | Some (Inr st3) \<Rightarrow>
                         Some (Inr (st3, \<lparr>bc = bc self, bbmap = new_bbmap\<rparr>))))))"

section \<open>Well-formed block maps and the order of the loops\<close>

text \<open>
  What the loop pass relies on in the block map at an address of the store: the address is
  allocated, the keys are distinct (a dict), every block is stored under its own \<open>begin\<close>
  (as \<open>add_node\<close> does), and the label generator has not yet handed out a control label
  that is a key.
\<close>

definition fresh_labels :: "int \<Rightarrow> graph \<Rightarrow> bool" where
  "fresh_labels c g \<longleftrightarrow> (\<forall>i\<ge>c. ControlLabel i \<notin> set (dict_keys g))"

definition wf_at :: "state \<Rightarrow> nat \<Rightarrow> bool" where
  "wf_at st a \<longleftrightarrow>
     a < length (heap st) \<and> distinct (dict_keys (graph_at st a)) \<and>
     keyed_by_begin (graph_at st a) \<and> fresh_labels (clg st) (graph_at st a)"

text \<open>
  The headers of a node set \<open>M\<close> as a set: the members that a key outside \<open>M\<close> jumps to.
\<close>

definition header_set :: "graph \<Rightarrow> label list \<Rightarrow> label set" where
  "header_set g M = {t \<in> set M. \<exists>n\<in>set (dict_keys g). n \<notin> set M \<and> t \<in> set (targets_of g n)}"

text \<open>
  The order in which a depth-first search emits the strongly connected components: a
  component is listed before the components that can reach it. For the list of loops:
  every loop is a set of keys, two loops are disjoint, and no block of a loop jumps into a
  loop listed after it.
\<close>

fun listed_downstream_first :: "graph \<Rightarrow> label list list \<Rightarrow> bool" where
  "listed_downstream_first g [] = True"
| "listed_downstream_first g (L # rest) =
     (set L \<subseteq> set (dict_keys g) \<and>
      (\<forall>M\<in>set rest. set L \<inter> set M = {} \<and>
         (\<forall>u\<in>set L. set (targets_of g u) \<inter> set M = {})) \<and>
      listed_downstream_first g rest)"

text \<open>
  A pass \<open>rec\<close> on the block map at an address leaves the other block maps of the store in
  place and does not turn the label generator back.
\<close>

definition keeps_others :: "(state \<Rightarrow> nat \<Rightarrow> (error + state) option) \<Rightarrow> bool" where
  "keeps_others rec \<longleftrightarrow>
     (\<forall>st b st'. rec st b = Some (Inr st') \<longrightarrow>
        clg st \<le> clg st' \<and> length (heap st) \<le> length (heap st') \<and>
        (\<forall>x<length (heap st). x \<noteq> b \<longrightarrow> heap st' ! x = heap st ! x))"

text \<open>
  The components of a graph are disjoint sets of keys; this is all that is asked of the
  list here, in whatever order the library gives it.
\<close>

fun listed_disjoint :: "graph \<Rightarrow> label list list \<Rightarrow> bool" where
  "listed_disjoint g [] = True"
| "listed_disjoint g (L # rest) =
     (set L \<subseteq> set (dict_keys g) \<and> (\<forall>M\<in>set rest. set L \<inter> set M = {}) \<and>
      listed_disjoint g rest)"

text \<open>
  The condition of the branch \<open>elif len(pre_exits) != 1\<close> of \<open>restructure_loop\<close>, which is
  reached when \<open>len(post_exits) != 1\<close> is false: the branch that builds an exception and
  does not raise it.
\<close>

definition unraised_case :: "graph \<Rightarrow> label list \<Rightarrow> bool" where
  "unraised_case g loop =
     (case find_exits loop g of
        Inl err \<Rightarrow> False
      | Inr (pre_exits, post_exits) \<Rightarrow> length post_exits = 1 \<and> length pre_exits \<noteq> 1)"

section \<open>Scenarios\<close>

definition ins :: "string \<Rightarrow> int \<Rightarrow> int \<Rightarrow> instruction" where
  "ins opn arg off = \<lparr>opname = opn, argval = arg, offset = off, is_jump_target = False\<rparr>"

text \<open>
  Scenario A. The instructions are built as the test \<open>test_fig4.py\<close> builds them, with
  \<open>is_jump_target\<close> false everywhere; \<open>scenario_a_flagged\<close> sets the flag where a decoder
  would (offsets 12, 14 and 18).
\<close>

definition scenario_a :: "instruction list" where
  "scenario_a =
     [ins ''OP'' 0 0, ins ''POP_JUMP_IF_TRUE'' 14 2,
      ins ''OP'' 0 4, ins ''POP_JUMP_IF_TRUE'' 12 6,
      ins ''OP'' 0 8, ins ''JUMP_ABSOLUTE'' 18 10,
      ins ''OP'' 0 12, ins ''OP'' 0 14, ins ''JUMP_ABSOLUTE'' 18 16,
      ins ''RETURN_VALUE'' 0 18]"

definition scenario_a_flagged :: "instruction list" where
  "scenario_a_flagged =
     map (\<lambda>i. i\<lparr>is_jump_target := (offset i \<in> set [12, 14, 18])\<rparr>) scenario_a"

definition scenario_a_graph :: graph where
  "scenario_a_graph =
     [(BCLabel 0, mk_bb (BCLabel 0) (BCLabel 4) False [BCLabel 14, BCLabel 4]),
      (BCLabel 4, mk_bb (BCLabel 4) (BCLabel 8) False [BCLabel 12, BCLabel 8]),
      (BCLabel 8, mk_bb (BCLabel 8) (BCLabel 12) False [BCLabel 18]),
      (BCLabel 12, mk_bb (BCLabel 12) (BCLabel 14) True [BCLabel 14]),
      (BCLabel 14, mk_bb (BCLabel 14) (BCLabel 18) False [BCLabel 18]),
      (BCLabel 18, mk_bb (BCLabel 18) (BCLabel 20) False [])]"

definition scenario_a_flow :: flowinfo where
  "scenario_a_flow =
     \<lparr>block_offsets = [BCLabel 0, BCLabel 14, BCLabel 4, BCLabel 12, BCLabel 8, BCLabel 18],
      jump_insts = [(BCLabel 2, [BCLabel 14, BCLabel 4]), (BCLabel 6, [BCLabel 12, BCLabel 8]),
                    (BCLabel 10, [BCLabel 18]), (BCLabel 16, [BCLabel 18]), (BCLabel 18, [])],
      last_offset = 18\<rparr>"

text \<open>The blocks at offsets 14 and 4 of scenario B, and a map with two returning blocks.\<close>

definition blk_a :: block where
  "blk_a = mk_bb (BCLabel 14) (BCLabel 18) False [BCLabel 4]"

definition blk_b :: block where
  "blk_b = mk_bb (BCLabel 4) (BCLabel 8) False [BCLabel 12, BCLabel 8]"

definition two_returns :: graph where
  "two_returns =
     [(BCLabel 0, mk_bb (BCLabel 0) (BCLabel 2) False [BCLabel 6, BCLabel 2]),
      (BCLabel 2, mk_bb (BCLabel 2) (BCLabel 6) False []),
      (BCLabel 6, mk_bb (BCLabel 6) (BCLabel 8) False [])]"

definition two_returns_joined :: graph where
  "two_returns_joined =
     [(BCLabel 0, mk_bb (BCLabel 0) (BCLabel 2) False [BCLabel 6, BCLabel 2]),
      (ControlLabel 0, mk_bb (ControlLabel 0) (ControlLabel 1) False []),
      (BCLabel 2, mk_bb (BCLabel 2) (BCLabel 6) False [ControlLabel 0]),
      (BCLabel 6, mk_bb (BCLabel 6) (BCLabel 8) False [ControlLabel 0])]"

text \<open>
  Scenario B: scenario A with the \<open>JUMP_ABSOLUTE\<close> at offset 16 retargeted to offset 4.
\<close>

definition scenario_b :: "instruction list" where
  "scenario_b =
     [ins ''OP'' 0 0, ins ''POP_JUMP_IF_TRUE'' 14 2,
      ins ''OP'' 0 4, ins ''POP_JUMP_IF_TRUE'' 12 6,
      ins ''OP'' 0 8, ins ''JUMP_ABSOLUTE'' 18 10,
      ins ''OP'' 0 12, ins ''OP'' 0 14, ins ''JUMP_ABSOLUTE'' 4 16,
      ins ''RETURN_VALUE'' 0 18]"

definition scenario_b_graph :: graph where
  "scenario_b_graph =
     [(BCLabel 0, mk_bb (BCLabel 0) (BCLabel 4) False [BCLabel 14, BCLabel 4]),
      (BCLabel 4, mk_bb (BCLabel 4) (BCLabel 8) False [BCLabel 12, BCLabel 8]),
      (BCLabel 8, mk_bb (BCLabel 8) (BCLabel 12) False [BCLabel 18]),
      (BCLabel 12, mk_bb (BCLabel 12) (BCLabel 14) True [BCLabel 14]),
      (BCLabel 14, mk_bb (BCLabel 14) (BCLabel 18) False [BCLabel 4]),
      (BCLabel 18, mk_bb (BCLabel 18) (BCLabel 20) False [])]"

text \<open>
  Three loops in a row: \<open>while\<close> loops at offsets 2 and 12 that leave through their header
  only, and between them a loop at offset 6 that can leave from its header and, as a
  \<open>break\<close> does, from its body, both times to offset 12.
\<close>

definition three_loops :: "instruction list" where
  "three_loops =
     [ins ''POP_JUMP_IF_TRUE'' 12 0,
      ins ''POP_JUMP_IF_TRUE'' 6 2, ins ''JUMP_ABSOLUTE'' 2 4,
      ins ''POP_JUMP_IF_TRUE'' 12 6, ins ''POP_JUMP_IF_TRUE'' 12 8, ins ''JUMP_ABSOLUTE'' 6 10,
      ins ''POP_JUMP_IF_TRUE'' 16 12, ins ''JUMP_ABSOLUTE'' 12 14,
      ins ''RETURN_VALUE'' 0 16]"

definition three_loops_graph :: graph where
  "three_loops_graph =
     [(BCLabel 0, mk_bb (BCLabel 0) (BCLabel 2) False [BCLabel 12, BCLabel 2]),
      (BCLabel 2, mk_bb (BCLabel 2) (BCLabel 4) False [BCLabel 6, BCLabel 4]),
      (BCLabel 4, mk_bb (BCLabel 4) (BCLabel 6) False [BCLabel 2]),
      (BCLabel 6, mk_bb (BCLabel 6) (BCLabel 8) False [BCLabel 12, BCLabel 8]),
      (BCLabel 8, mk_bb (BCLabel 8) (BCLabel 10) False [BCLabel 12, BCLabel 10]),
      (BCLabel 10, mk_bb (BCLabel 10) (BCLabel 12) False [BCLabel 6]),
      (BCLabel 12, mk_bb (BCLabel 12) (BCLabel 14) False [BCLabel 16, BCLabel 14]),
      (BCLabel 14, mk_bb (BCLabel 14) (BCLabel 16) False [BCLabel 12]),
      (BCLabel 16, mk_bb (BCLabel 16) (BCLabel 18) False [])]"

text \<open>
  A loop at offsets 2 and 4 that is entered at both from the entry block, and after it a
  loop at offsets 6 and 8 with the one header 6, which it leaves from its header.
\<close>

definition loop_then_two_entry :: "instruction list" where
  "loop_then_two_entry =
     [ins ''POP_JUMP_IF_TRUE'' 4 0,
      ins ''OP'' 0 2, ins ''POP_JUMP_IF_TRUE'' 2 4,
      ins ''POP_JUMP_IF_TRUE'' 10 6, ins ''JUMP_ABSOLUTE'' 6 8,
      ins ''RETURN_VALUE'' 0 10]"

definition loop_then_two_entry_graph :: graph where
  "loop_then_two_entry_graph =
     [(BCLabel 0, mk_bb (BCLabel 0) (BCLabel 2) False [BCLabel 4, BCLabel 2]),
      (BCLabel 2, mk_bb (BCLabel 2) (BCLabel 4) True [BCLabel 4]),
      (BCLabel 4, mk_bb (BCLabel 4) (BCLabel 6) False [BCLabel 2, BCLabel 6]),
      (BCLabel 6, mk_bb (BCLabel 6) (BCLabel 8) False [BCLabel 10, BCLabel 8]),
      (BCLabel 8, mk_bb (BCLabel 8) (BCLabel 10) False [BCLabel 6]),
      (BCLabel 10, mk_bb (BCLabel 10) (BCLabel 12) False [])]"



text \<open>The library function with its components listed in the opposite order.\<close>

definition scc_rev :: sccfun where
  "scc_rev vs adj = rev (scc vs adj)"

text \<open>What a region block at a label of a block map shows: kind, jump targets and exit.\<close>

definition region_at :: "state \<Rightarrow> nat \<Rightarrow> label \<Rightarrow> (string \<times> label list \<times> label option) option" where
  "region_at st a l =
     (case map_of (graph_at st a) l of
        Some (RegionBlock b kd h s e) \<Rightarrow> Some (kd, jump_targets b, e)
      | _ \<Rightarrow> None)"

text \<open>The dominator sets of scenario A.\<close>

definition scenario_a_doms :: "(label \<times> label list) list" where
  "scenario_a_doms =
     [(BCLabel 0, [BCLabel 0]), (BCLabel 4, [BCLabel 4, BCLabel 0]),
      (BCLabel 8, [BCLabel 8, BCLabel 4, BCLabel 0]),
      (BCLabel 12, [BCLabel 12, BCLabel 4, BCLabel 0]),
      (BCLabel 14, [BCLabel 14, BCLabel 0]),
      (BCLabel 18, [BCLabel 18, BCLabel 0])]"

text \<open>
  The bytecode of \<open>two_returns\<close>, a conditional with a \<open>return\<close> in each arm, and an
  \<open>if\<close>/\<open>else\<close> whose arms meet at one \<open>return\<close>.
\<close>

definition two_returns_bc :: "instruction list" where
  "two_returns_bc =
     [ins ''POP_JUMP_IF_TRUE'' 6 0, ins ''OP'' 0 2, ins ''RETURN_VALUE'' 0 4,
      ins ''RETURN_VALUE'' 0 6]"

definition if_else_bc :: "instruction list" where
  "if_else_bc =
     [ins ''POP_JUMP_IF_TRUE'' 6 0, ins ''OP'' 0 2, ins ''JUMP_FORWARD'' 8 4,
      ins ''OP'' 0 6, ins ''RETURN_VALUE'' 0 8]"

definition if_else_graph :: graph where
  "if_else_graph =
     [(BCLabel 0, mk_bb (BCLabel 0) (BCLabel 2) False [BCLabel 6, BCLabel 2]),
      (BCLabel 2, mk_bb (BCLabel 2) (BCLabel 6) False [BCLabel 8]),
      (BCLabel 6, mk_bb (BCLabel 6) (BCLabel 8) True [BCLabel 8]),
      (BCLabel 8, mk_bb (BCLabel 8) (BCLabel 10) False [])]"

text \<open>
  The labels a \<open>headers\<close> field holds, and, for the region block at a label of a block map,
  its kind with those of its header labels that are keys of its subregion.
\<close>

fun header_labels :: "headers \<Rightarrow> label list" where
  "header_labels (HeadersDict d) = dict_keys d"
| "header_labels (HeadersTuple ls) = ls"
| "header_labels (HeadersSet ls) = ls"

definition headers_in_subregion :: "state \<Rightarrow> nat \<Rightarrow> label \<Rightarrow> (string \<times> label list) option" where
  "headers_in_subregion st a l =
     (case map_of (graph_at st a) l of
        Some (RegionBlock b kd h s e) \<Rightarrow>
          Some (kd, [x \<leftarrow> header_labels h. x \<in> set (dict_keys (graph_at st s))])
      | _ \<Rightarrow> None)"

text \<open>The keys of a block map with the kind of each block.\<close>

fun kind_of :: "block \<Rightarrow> string" where
  "kind_of (BasicBlock b) = ''basic''"
| "kind_of (RegionBlock b kd h s e) = kd"

definition kinds_at :: "state \<Rightarrow> nat \<Rightarrow> (label \<times> string) list" where
  "kinds_at st a = map (\<lambda>(k, blk). (k, kind_of blk)) (graph_at st a)"

section \<open>Lemmas about dictionaries and \<open>join_returns\<close>\<close>

lemma in_keys_iff: "k \<in> set (dict_keys g) \<longleftrightarrow> map_of g k \<noteq> None"
  by (simp add: dict_keys_def map_of_eq_None_iff)

lemma set_return_nodes: "set (return_nodes g) = terminating g"
  by (auto simp: return_nodes_def terminating_def in_keys_iff split: option.splits)

lemma distinct_return_nodes: "distinct (dict_keys g) \<Longrightarrow> distinct (return_nodes g)"
  by (simp add: return_nodes_def)

lemma terminating_keys: "terminating g \<subseteq> set (dict_keys g)"
  by (auto simp: terminating_def in_keys_iff)

lemma dict_keys_add_node: "set (dict_keys (add_node g blk)) = insert (bb_begin (base blk)) (set (dict_keys g))"
  by (auto simp: in_keys_iff add_node_def dict_set_def update_conv' split: if_splits)

lemma distinct_add_node: "distinct (dict_keys g) \<Longrightarrow> distinct (dict_keys (add_node g blk))"
  by (simp add: add_node_def dict_set_def dict_keys_def distinct_update)

lemma map_of_add_node: "map_of (add_node g blk) = (map_of g)(bb_begin (base blk) \<mapsto> blk)"
  by (simp add: add_node_def dict_set_def update_conv')

lemma dict_pop_Inr:
  "dict_pop g k = Inr (blk, g1) \<longleftrightarrow> map_of g k = Some blk \<and> g1 = AList.delete k g"
  by (auto simp: dict_pop_def split: option.splits)

lemma dict_pop_Inl: "dict_pop g k = Inl e \<longleftrightarrow> map_of g k = None \<and> e = KeyError"
  by (auto simp: dict_pop_def split: option.splits)

lemma dict_keys_delete: "set (dict_keys (AList.delete k g)) = set (dict_keys g) - {k}"
  by (auto simp: in_keys_iff delete_conv' split: if_splits)

lemma distinct_dict_delete: "distinct (dict_keys g) \<Longrightarrow> distinct (dict_keys (AList.delete k g))"
  by (simp add: dict_keys_def distinct_delete)

lemma not_exiting_replace [simp]: "\<not> is_exiting (replace_jump_targets blk [l])"
  by (cases blk) (simp_all add: is_exiting_def replace_jump_targets_def)

lemma terminating_add_node:
  "terminating (add_node g blk) =
     (if is_exiting blk then insert (bb_begin (base blk)) (terminating g)
      else terminating g - {bb_begin (base blk)})"
  by (auto simp: terminating_def map_of_add_node)

lemma terminating_delete: "terminating (AList.delete k g) = terminating g - {k}"
  by (auto simp: terminating_def delete_conv')

lemma rewire_returns_total:
  "distinct rs \<Longrightarrow> set rs \<subseteq> set (dict_keys g) \<Longrightarrow>
   \<exists>g'. rewire_returns solo g rs = Inr g' \<and> terminating g' \<subseteq> terminating g - set rs \<and>
     (distinct (dict_keys g) \<longrightarrow> distinct (dict_keys g'))"
proof (induction rs arbitrary: g)
  case Nil
  then show ?case by simp
next
  case (Cons r rs)
  from Cons.prems obtain blk where blk: "map_of g r = Some blk"
    by (auto simp: in_keys_iff)
  let ?g1 = "add_node (AList.delete r g) (replace_jump_targets blk [solo])"
  have pop: "dict_pop g r = Inr (blk, AList.delete r g)"
    using blk by (simp add: dict_pop_Inr)
  have "set rs \<subseteq> set (dict_keys ?g1)"
    using Cons.prems by (auto simp: dict_keys_add_node dict_keys_delete)
  moreover have "distinct rs" using Cons.prems by simp
  ultimately obtain g' where g': "rewire_returns solo ?g1 rs = Inr g'"
    "terminating g' \<subseteq> terminating ?g1 - set rs"
    "distinct (dict_keys ?g1) \<longrightarrow> distinct (dict_keys g')"
    using Cons.IH [of ?g1] by blast
  have "terminating ?g1 \<subseteq> terminating g - {r}"
    by (auto simp: terminating_add_node terminating_delete)
  with g' pop show ?case
    by (auto simp: distinct_add_node distinct_dict_delete)
qed

lemma join_returns_total:
  assumes "distinct (dict_keys g)"
  shows "\<exists>c' g'. join_returns c g = Inr (c', g') \<and> distinct (dict_keys g') \<and>
           (length (return_nodes g) \<le> 1 \<longrightarrow> c' = c \<and> g' = g) \<and>
           (length (return_nodes g) > 1 \<longrightarrow> terminating g' \<subseteq> {ControlLabel c})"
proof (cases "length (return_nodes g) > 1")
  case False
  then show ?thesis using assms by (simp add: join_returns_def)
next
  case True
  let ?solo = "BasicBlock \<lparr>bb_begin = ControlLabel c, bb_end = ControlLabel (c + 1),
       fallthrough = False, jump_targets = [], backedges = []\<rparr>"
  let ?g0 = "add_node g ?solo"
  have "set (return_nodes g) \<subseteq> set (dict_keys ?g0)"
    using terminating_keys [of g] by (auto simp: set_return_nodes dict_keys_add_node)
  then obtain g' where g': "rewire_returns (ControlLabel c) ?g0 (return_nodes g) = Inr g'"
    "terminating g' \<subseteq> terminating ?g0 - set (return_nodes g)"
    "distinct (dict_keys ?g0) \<longrightarrow> distinct (dict_keys g')"
    using rewire_returns_total [of "return_nodes g" ?g0 "ControlLabel c"]
      distinct_return_nodes [OF assms] by blast
  have "terminating ?g0 \<subseteq> insert (ControlLabel c) (terminating g)"
    by (auto simp: terminating_add_node split: if_splits)
  with g' have "terminating g' \<subseteq> {ControlLabel c}"
    by (auto simp: set_return_nodes)
  with g' True assms show ?thesis
    by (auto simp: join_returns_def Let_def distinct_add_node)
qed

lemma keyed_by_beginD:
  "keyed_by_begin g \<Longrightarrow> map_of g k = Some blk \<Longrightarrow> bb_begin (base blk) = k"
  by (auto simp: keyed_by_begin_def list_all_iff dest!: map_of_SomeD)

lemma keyed_by_begin_delete: "keyed_by_begin g \<Longrightarrow> keyed_by_begin (AList.delete k g)"
  by (auto simp: keyed_by_begin_def list_all_iff AList.delete_eq)

lemma keyed_by_begin_update:
  "keyed_by_begin g \<Longrightarrow> bb_begin (base blk) = k \<Longrightarrow> keyed_by_begin (AList.update k blk g)"
  by (induction g) (auto simp: keyed_by_begin_def)

lemma keyed_by_begin_add_node: "keyed_by_begin g \<Longrightarrow> keyed_by_begin (add_node g blk)"
  by (simp add: add_node_def dict_set_def keyed_by_begin_update)

lemma begin_replace_jump_targets [simp]:
  "bb_begin (base (replace_jump_targets blk jts)) = bb_begin (base blk)"
  by (cases blk) (simp_all add: replace_jump_targets_def)

lemma jump_targets_replace [simp]:
  "jump_targets (base (replace_jump_targets blk jts)) = jts"
  by (cases blk) (simp_all add: replace_jump_targets_def)

lemma rewire_returns_map:
  "distinct rs \<Longrightarrow> set rs \<subseteq> set (dict_keys g) \<Longrightarrow> keyed_by_begin g \<Longrightarrow>
   \<exists>g'. rewire_returns solo g rs = Inr g' \<and>
     map_of g' = (\<lambda>k. if k \<in> set rs
                       then map_option (\<lambda>b. replace_jump_targets b [solo]) (map_of g k)
                       else map_of g k)"
proof (induction rs arbitrary: g)
  case Nil
  then show ?case by simp
next
  case (Cons r rs)
  from Cons.prems obtain blk where blk: "map_of g r = Some blk"
    by (auto simp: in_keys_iff)
  let ?b = "replace_jump_targets blk [solo]"
  let ?g1 = "add_node (AList.delete r g) ?b"
  have pop: "dict_pop g r = Inr (blk, AList.delete r g)"
    using blk by (simp add: dict_pop_Inr)
  have beg: "bb_begin (base blk) = r"
    using keyed_by_beginD [OF Cons.prems(3) blk] by simp
  have m1: "map_of ?g1 = (map_of g)(r \<mapsto> ?b)"
    by (auto simp: map_of_add_node beg delete_conv')
  have "set rs \<subseteq> set (dict_keys ?g1)"
    using Cons.prems by (auto simp: dict_keys_add_node dict_keys_delete)
  moreover have "distinct rs" using Cons.prems by simp
  moreover have "keyed_by_begin ?g1"
    using Cons.prems by (simp add: keyed_by_begin_add_node keyed_by_begin_delete)
  ultimately obtain g' where g': "rewire_returns solo ?g1 rs = Inr g'"
    "map_of g' = (\<lambda>k. if k \<in> set rs
                       then map_option (\<lambda>b. replace_jump_targets b [solo]) (map_of ?g1 k)
                       else map_of ?g1 k)"
    using Cons.IH [of ?g1] by blast
  have "r \<notin> set rs" using Cons.prems by simp
  then have "map_of g' = (\<lambda>k. if k \<in> set (r # rs)
                       then map_option (\<lambda>b. replace_jump_targets b [solo]) (map_of g k)
                       else map_of g k)"
    using g'(2) blk by (auto simp: m1 fun_eq_iff)
  with g'(1) pop show ?case by simp
qed

lemma distinct_singleton: "distinct xs \<Longrightarrow> set xs = {x} \<Longrightarrow> xs = [x]"
  by (cases xs) (auto simp: insert_eq_iff dest: subset_singletonD split: if_splits)

section \<open>Lemmas about the dominator loop\<close>

lemma set_foldl_set_add: "set (foldl set_add xs ys) = set xs \<union> set ys"
  by (induction ys arbitrary: xs) (auto simp: set_add_def)

lemma set_foldl_inter: "set (foldl set_intersection d ds) = set d \<inter> (\<Inter>x\<in>set ds. set x)"
  by (induction ds arbitrary: d) (auto simp: set_intersection_def)

lemma lookup_all_ok:
  "set ps \<subseteq> fst ` set dmap \<Longrightarrow>
   \<exists>ds. lookup_all dmap ps = Inr ds \<and> map set ds = map (dom_set dmap) ps"
proof (induction ps)
  case Nil
  then show ?case by simp
next
  case (Cons p ps)
  then obtain d where "map_of dmap p = Some d"
    by (metis list.set_intros(1) map_of_eq_None_iff not_Some_eq subsetD)
  with Cons show ?case by (auto simp: dom_set_def)
qed

lemma new_doms_set:
  assumes "lookup_all dmap (preds n) = Inr ds" and "set (preds n) \<subseteq> fst ` set dmap"
  shows "set (if preds n = [] then [n] else foldl set_add [n] (reduce_intersection ds)) =
         dom_rhs preds dmap n"
proof (cases "preds n = []")
  case True
  then show ?thesis by (simp add: dom_rhs_def)
next
  case False
  from lookup_all_ok [OF assms(2)] assms(1)
  have m: "map set ds = map (dom_set dmap) (preds n)" by auto
  with False obtain d rest where ds: "ds = d # rest" by (cases ds) auto
  have "set (reduce_intersection ds) = (\<Inter>x\<in>set ds. set x)"
    by (simp add: ds set_foldl_inter)
  also have "\<dots> = \<Inter> (set (map set ds))" by simp
  also have "\<dots> = (\<Inter>p\<in>set (preds n). dom_set dmap p)" by (simp add: m)
  finally show ?thesis using False by (simp add: dom_rhs_def set_foldl_set_add)
qed

lemma dom_set_update:
  "dom_set (dict_set dmap n new) m = (if m = n then set new else dom_set dmap m)"
  by (simp add: dom_set_def dict_set_def update_conv')

lemma keys_update_present:
  "n \<in> fst ` set dmap \<Longrightarrow> fst ` set (dict_set dmap n new) = fst ` set dmap"
  by (auto simp: dict_set_def dom_update)

lemma dom_rhs_mono:
  "(\<And>m. dom_set d' m \<subseteq> dom_set d m) \<Longrightarrow> dom_rhs preds d' n \<subseteq> dom_rhs preds d n"
  by (auto simp: dom_rhs_def)

lemma dom_rhs_cong:
  "(\<And>p. p \<in> set (preds n) \<Longrightarrow> dom_set d' p = dom_set d p) \<Longrightarrow>
   dom_rhs preds d' n = dom_rhs preds d n"
  by (auto simp: dom_rhs_def)

lemma butlast_cases: "todo \<noteq> [] \<Longrightarrow> m \<in> set todo \<Longrightarrow> m \<notin> set (butlast todo) \<Longrightarrow> m = last todo"
  by (metis append_butlast_last_id in_set_conv_decomp_first rotate1.simps(2) set_ConsD set_rotate1)

lemma dom_loop_inv:
  "graph_ok entries nodes preds succs \<Longrightarrow> dom_inv entries nodes preds dmap todo \<Longrightarrow>
   \<exists>r. dom_loop entries preds succs dmap todo = Inr r \<and> dom_inv entries nodes preds r []"
proof (induction entries preds succs dmap todo rule: dom_loop.induct)
  case (1 entries preds succs dmap todo)
  note ok = "1.prems"(1) and inv = "1.prems"(2)
  show ?case
  proof (cases "todo = []")
    case True
    with inv show ?thesis by (subst dom_loop.simps) simp
  next
    case ne: False
    let ?n = "last todo" and ?t1 = "butlast todo"
    have keys: "fst ` set dmap = set nodes" using inv by (simp add: dom_inv_def)
    have n_nodes: "?n \<in> set nodes" using inv ne by (auto simp: dom_inv_def)
    have t1_sub: "set ?t1 \<subseteq> set nodes"
      using inv by (auto simp: dom_inv_def dest: in_set_butlastD)
    show ?thesis
    proof (cases "?n \<in> set entries")
      case True
      have inv1: "dom_inv entries nodes preds dmap ?t1"
        using inv t1_sub True butlast_cases [OF ne] unfolding dom_inv_def by blast
      from "1.IH"(1) [OF ne refl refl True ok inv1]
      show ?thesis by (subst dom_loop.simps) (simp add: Let_def ne True)
    next
      case nonentry: False
      have pk: "set (preds ?n) \<subseteq> fst ` set dmap"
        using ok keys by (auto simp: graph_ok_def)
      obtain ds where ds: "lookup_all dmap (preds ?n) = Inr ds"
        using lookup_all_ok [OF pk] by blast
      define new where
        "new = (if preds ?n = [] then [?n] else foldl set_add [?n] (reduce_intersection ds))"
      have new_set: "set new = dom_rhs preds dmap ?n"
        unfolding new_def by (rule new_doms_set [of dmap preds "last todo" ds, OF ds pk])
      obtain old where old: "map_of dmap ?n = Some old"
        using n_nodes keys by (metis map_of_eq_None_iff not_Some_eq)
      have old_set: "dom_set dmap ?n = set old" by (simp add: dom_set_def old)
      have "dom_rhs preds dmap ?n \<subseteq> dom_set dmap ?n"
        using inv nonentry n_nodes unfolding dom_inv_def by blast
      then have sub: "set new \<subseteq> set old"
        using new_set old_set by simp
      show ?thesis
      proof (cases "set new = set old")
        case True
        have fixp: "dom_set dmap ?n = dom_rhs preds dmap ?n"
          using True new_set old_set by simp
        have inv1: "dom_inv entries nodes preds dmap ?t1"
          using inv t1_sub fixp butlast_cases [OF ne] unfolding dom_inv_def by blast
        have "\<not> set new \<noteq> set old" using True by simp
        from "1.IH"(3) [OF ne refl refl nonentry ds new_def old this ok inv1]
        show ?thesis
          by (subst dom_loop.simps) (simp add: Let_def ne nonentry ds old True flip: new_def)
      next
        case changed: False
        have card: "card (set new) < card (set old)"
          using sub changed by (simp add: psubset_card_mono psubsetI)
        let ?d = "dict_set dmap ?n new"
        have le: "dom_set ?d k \<subseteq> dom_set dmap k" for k
          using sub old_set by (simp add: dom_set_update)
        have a: "fst ` set ?d = set nodes"
          using keys n_nodes by (simp add: keys_update_present)
        have b: "\<forall>e\<in>set entries. dom_set ?d e = {e}"
          using inv nonentry by (auto simp: dom_inv_def dom_set_update)
        have d: "dom_rhs preds ?d m \<subseteq> dom_set ?d m" if "m \<in> set nodes - set entries" for m
        proof (cases "m = ?n")
          case True
          then show ?thesis
            using dom_rhs_mono [of ?d dmap preds ?n, OF le] new_set by (simp add: dom_set_update)
        next
          case False
          have "dom_rhs preds dmap m \<subseteq> dom_set dmap m"
            using inv that by (auto simp: dom_inv_def)
          with False dom_rhs_mono [of ?d dmap preds m, OF le] show ?thesis
            by (auto simp: dom_set_update)
        qed
        have e: "dom_set ?d m = dom_rhs preds ?d m"
          if "m \<in> set nodes - set entries" "m \<notin> set (?t1 @ succs ?n)" for m
        proof -
          have "?n \<notin> set (preds m)" using ok that(2) by (auto simp: graph_ok_def)
          then have same: "dom_rhs preds ?d m = dom_rhs preds dmap m"
            by (intro dom_rhs_cong) (auto simp: dom_set_update)
          show ?thesis
          proof (cases "m = ?n")
            case True
            then show ?thesis using same new_set by (simp add: dom_set_update)
          next
            case False
            then have "m \<notin> set todo" using that(2) butlast_cases [OF ne, of m] by auto
            then have "dom_set dmap m = dom_rhs preds dmap m"
              using inv that(1) by (auto simp: dom_inv_def)
            with False same show ?thesis by (simp add: dom_set_update)
          qed
        qed
        have f: "set (?t1 @ succs ?n) \<subseteq> set nodes"
          using t1_sub ok by (auto simp: graph_ok_def)
        have inv2: "dom_inv entries nodes preds ?d (?t1 @ succs ?n)"
          unfolding dom_inv_def using a b d e f by blast
        have "set new \<noteq> set old" using changed by simp
        from "1.IH"(2) [OF ne refl refl nonentry ds new_def old this card ok inv2]
        show ?thesis
          by (subst dom_loop.simps) (simp add: Let_def ne nonentry ds old changed card flip: new_def)
      qed
    qed
  qed
qed

lemma map_of_foldl_dict_set:
  "map_of (foldl (\<lambda>d x. dict_set d x (f x)) d0 xs) k =
     (if k \<in> set xs then Some (f k) else map_of d0 k)"
  by (induction xs arbitrary: d0) (auto simp: dict_set_def update_conv')

lemma set_set_of_list: "set (set_of_list xs) = set xs"
  by (simp add: set_of_list_def set_foldl_set_add)

lemma find_dominators_internal_inv:
  assumes ok: "graph_ok entries nodes preds succs" and ne: "entries \<noteq> []"
  shows "\<exists>dmap. find_dominators_internal entries nodes preds succs = Inr dmap \<and>
           dom_inv entries nodes preds dmap []"
proof -
  define others where "others = [n \<leftarrow> nodes. n \<notin> set entries]"
  define doms1 where "doms1 = foldl (\<lambda>d n. dict_set d n (set_of_list nodes))
      (foldl (\<lambda>d e. dict_set d e [e]) [] entries) others"
  have m: "map_of doms1 k = (if k \<in> set others then Some (set_of_list nodes)
             else if k \<in> set entries then Some [k] else None)" for k
    unfolding doms1_def by (simp add: map_of_foldl_dict_set)
  have ds: "dom_set doms1 k = (if k \<in> set others then set nodes
             else if k \<in> set entries then {k} else {})" for k
    by (simp add: dom_set_def m set_set_of_list)
  have "dom (map_of doms1) = set nodes"
    using ok by (auto simp: graph_ok_def others_def m dom_def split: if_splits)
  then have keys: "fst ` set doms1 = set nodes"
    by (simp add: dom_map_of_conv_image_fst)
  have sub: "dom_set doms1 k \<subseteq> set nodes" for k
    using ok by (auto simp: ds graph_ok_def others_def)
  have d: "dom_rhs preds doms1 n \<subseteq> dom_set doms1 n" if "n \<in> set nodes - set entries" for n
  proof -
    have "n \<in> set others" using that by (simp add: others_def)
    then have "dom_set doms1 n = set nodes" by (simp add: ds)
    moreover have "dom_rhs preds doms1 n \<subseteq> set nodes"
    proof (cases "preds n")
      case Nil
      with that show ?thesis by (simp add: dom_rhs_def)
    next
      case (Cons p ps)
      then have "(\<Inter>q\<in>set (preds n). dom_set doms1 q) \<subseteq> dom_set doms1 p" by auto
      with that sub [of p] Cons show ?thesis by (auto simp: dom_rhs_def)
    qed
    ultimately show ?thesis by simp
  qed
  have b: "\<forall>e\<in>set entries. dom_set doms1 e = {e}"
    by (simp add: ds others_def)
  have e: "\<forall>n\<in>set nodes - set entries. n \<notin> set others \<longrightarrow>
             dom_set doms1 n = dom_rhs preds doms1 n"
    by (simp add: others_def)
  have f: "set others \<subseteq> set nodes" by (auto simp: others_def)
  have inv: "dom_inv entries nodes preds doms1 others"
    unfolding dom_inv_def using keys b d e f by blast
  from dom_loop_inv [OF ok inv] show ?thesis
    by (simp add: find_dominators_internal_def ne Let_def flip: others_def doms1_def)
qed

lemma doms_tables_ok:
  "graph_ok (doms_entries g) (dict_keys g) (doms_preds_table g) (doms_succs_table g)"
  by (auto simp: graph_ok_def doms_entries_def doms_preds_table_def doms_succs_table_def
      set_set_of_list graph_succs_def split: option.splits)

section \<open>Lemmas about components\<close>

lemma forward_edges_no_cycle:
  assumes fw: "\<And>u v. (u, v) \<in> graph_edges g \<Longrightarrow> payload u < payload v"
    and sound: "sound_components g comps"
  shows "[c \<leftarrow> comps. length c > 1] = []"
proof -
  have inc: "payload u < payload v" if "(u, v) \<in> (graph_edges g)\<^sup>+" for u v
    using that by (induction rule: trancl_induct) (auto dest: fw)
  have "length c \<le> 1" if c: "c \<in> set comps" for c
  proof (rule ccontr)
    assume "\<not> length c \<le> 1"
    then obtain x y rest where xy: "c = x # y # rest" by (cases c; cases "tl c") auto
    from sound c have d: "distinct c"
      and r: "\<And>u v. u \<in> set c \<Longrightarrow> v \<in> set c \<Longrightarrow> u \<noteq> v \<Longrightarrow> (u, v) \<in> (graph_edges g)\<^sup>+"
      unfolding sound_components_def by blast+
    from d xy have "x \<noteq> y" by auto
    then have "(x, y) \<in> (graph_edges g)\<^sup>+" "(y, x) \<in> (graph_edges g)\<^sup>+"
      using r [of x y] r [of y x] xy by auto
    then have "payload x < payload y" "payload y < payload x" by (auto dest: inc)
    then show False by simp
  qed
  then show ?thesis by (auto simp: filter_empty_conv not_less)
qed

lemma scenario_a_forward:
  "(u, v) \<in> graph_edges scenario_a_graph \<Longrightarrow> payload u < payload v"
proof -
  assume e: "(u, v) \<in> graph_edges scenario_a_graph"
  have all: "list_all (\<lambda>(k, blk). list_all (\<lambda>t. payload k < payload t) (jump_targets (base blk)))
     scenario_a_graph" by code_simp
  from e obtain blk where b: "map_of scenario_a_graph u = Some blk"
    and v: "v \<in> set (jump_targets (base blk))"
    by (cases "map_of scenario_a_graph u") (auto simp: graph_edges_def graph_succs_def)
  from b have "(u, blk) \<in> set scenario_a_graph" by (rule map_of_SomeD)
  with all v show ?thesis by (auto simp: list_all_iff)
qed

section \<open>Lemmas on the loop pass\<close>

lemma distinct_foldl_set_add: "distinct xs \<Longrightarrow> distinct (foldl set_add xs ys)"
  by (induction ys arbitrary: xs) (auto simp: set_add_def)

lemma set_jumps_into: "set (jumps_into g loop node) = set (targets_of g node) \<inter> set loop"
  by (auto simp: jumps_into_def targets_of_def set_of_list_def set_foldl_set_add
      split: option.splits)

lemma set_foldl_headers:
  "set (foldl (\<lambda>headers node. foldl set_add headers (f node)) hs ns) =
     set hs \<union> (\<Union>n\<in>set ns. set (f n))"
  by (induction ns arbitrary: hs) (auto simp: set_foldl_set_add)

lemma distinct_foldl_headers:
  "distinct hs \<Longrightarrow> distinct (foldl (\<lambda>headers node. foldl set_add headers (f node)) hs ns)"
  by (induction ns arbitrary: hs) (auto simp: distinct_foldl_set_add)

lemma headers_set: "set (fst (find_headers_and_entries g M)) = header_set g M"
  by (auto simp: find_headers_and_entries_def Let_def set_foldl_headers set_jumps_into
      header_set_def)

lemma headers_distinct: "distinct (fst (find_headers_and_entries g M))"
  by (simp add: find_headers_and_entries_def Let_def distinct_foldl_headers)

lemma headers_length: "length (fst (find_headers_and_entries g M)) = card (header_set g M)"
  by (metis headers_set headers_distinct distinct_card)

lemma find_exits_loop_post:
  "find_exits_loop g loop xs pre post = Inr (pre', post') \<Longrightarrow>
   set post' \<subseteq> set post \<union> (\<Union>u\<in>set xs. set (targets_of g u))"
proof (induction xs arbitrary: pre post)
  case Nil
  then show ?case by simp
next
  case (Cons x xs)
  from Cons.prems obtain blk where blk: "map_of g x = Some blk"
    by (auto split: option.splits)
  let ?outs = "[jt \<leftarrow> jump_targets (base blk). jt \<notin> set loop]"
  from Cons.prems blk obtain pre2 where
    "find_exits_loop g loop xs pre2 (foldl set_add post ?outs) = Inr (pre', post')"
    by (auto simp: Let_def)
  from Cons.IH [OF this] have "set post' \<subseteq> set (foldl set_add post ?outs) \<union>
      (\<Union>u\<in>set xs. set (targets_of g u))" .
  moreover have "set ?outs \<subseteq> set (targets_of g x)"
    by (auto simp: targets_of_def blk)
  ultimately show ?case by (auto simp: set_foldl_set_add)
qed

lemma find_exits_post:
  "find_exits L g = Inr (pre, post) \<Longrightarrow> set post \<subseteq> (\<Union>u\<in>set L. set (targets_of g u))"
  using find_exits_loop_post [of g L L "[]" "[]" pre post] by (simp add: find_exits_def)

lemma redirect_exit_frame:
  "redirect_exit e pre g xs = Inr g' \<Longrightarrow> distinct (dict_keys g) \<Longrightarrow> keyed_by_begin g \<Longrightarrow>
   distinct (dict_keys g') \<and> keyed_by_begin g' \<and> set (dict_keys g') = set (dict_keys g) \<and>
   (\<forall>n. n \<notin> set xs \<longrightarrow> map_of g' n = map_of g n)"
proof (induction xs arbitrary: g)
  case Nil
  then show ?case by simp
next
  case (Cons x xs)
  show ?case
  proof (cases "x = pre")
    case True
    with Cons.prems have "redirect_exit e pre g xs = Inr g'" by simp
    from Cons.IH [OF this Cons.prems(2,3)] show ?thesis by simp
  next
    case False
    from Cons.prems False obtain blk where blk: "map_of g x = Some blk"
      by (auto split: option.splits)
    show ?thesis
    proof (cases "e \<in> set (jump_targets (base blk))")
      case False
      with Cons.prems \<open>x \<noteq> pre\<close> blk have "redirect_exit e pre g xs = Inr g'" by simp
      from Cons.IH [OF this Cons.prems(2,3)] show ?thesis by simp
    next
      case True
      let ?new = "[t \<leftarrow> jump_targets (base blk). t \<noteq> e] @ [pre]"
      let ?g1 = "add_node (AList.delete x g) (replace_jump_targets blk ?new)"
      have pop: "dict_pop g x = Inr (blk, AList.delete x g)"
        using blk by (simp add: dict_pop_Inr)
      have step: "redirect_exit e pre ?g1 xs = Inr g'"
        using Cons.prems(1) \<open>x \<noteq> pre\<close> blk True pop by (simp add: Let_def)
      have beg: "bb_begin (base blk) = x"
        using keyed_by_beginD [OF Cons.prems(3) blk] .
      have d1: "distinct (dict_keys ?g1)"
        using Cons.prems(2) by (simp add: distinct_add_node distinct_dict_delete)
      have k1: "keyed_by_begin ?g1"
        using Cons.prems(3) by (simp add: keyed_by_begin_add_node keyed_by_begin_delete)
      have keys1: "set (dict_keys ?g1) = set (dict_keys g)"
        using blk by (auto simp: dict_keys_add_node dict_keys_delete beg in_keys_iff)
      have m1: "n \<noteq> x \<Longrightarrow> map_of ?g1 n = map_of g n" for n
        by (simp add: map_of_add_node beg delete_conv')
      from Cons.IH [OF step d1 k1] keys1 m1 show ?thesis by auto
    qed
  qed
qed

lemma redirect_exits_frame:
  "redirect_exits es pre loop g = Inr g' \<Longrightarrow> distinct (dict_keys g) \<Longrightarrow> keyed_by_begin g \<Longrightarrow>
   distinct (dict_keys g') \<and> keyed_by_begin g' \<and> set (dict_keys g') = set (dict_keys g) \<and>
   (\<forall>n. n \<notin> set loop \<longrightarrow> map_of g' n = map_of g n)"
proof (induction es arbitrary: g)
  case Nil
  then show ?case by simp
next
  case (Cons e es)
  from Cons.prems(1) obtain g1 where g1: "redirect_exit e pre g loop = Inr g1"
    and rest: "redirect_exits es pre loop g1 = Inr g'"
    by (auto split: sum.splits)
  from redirect_exit_frame [OF g1 Cons.prems(2,3)]
  have f1: "distinct (dict_keys g1)" "keyed_by_begin g1" "set (dict_keys g1) = set (dict_keys g)"
    "\<forall>n. n \<notin> set loop \<longrightarrow> map_of g1 n = map_of g n" by auto
  from Cons.IH [OF rest f1(1,2)] f1(3,4) show ?case by auto
qed

lemma join_exits_frame:
  assumes je: "join_exits c L g exits = Inr (c', L1, gx, pre, post)"
    and d: "distinct (dict_keys g)" and k: "keyed_by_begin g"
    and f: "fresh_labels c g" and sub: "set L \<subseteq> set (dict_keys g)"
  shows "c' = c + 4 \<and> L1 = set_add L (ControlLabel c) \<and> pre = ControlLabel c \<and>
         post = ControlLabel (c + 1) \<and> distinct (dict_keys gx) \<and> keyed_by_begin gx \<and>
         set (dict_keys gx) = insert pre (insert post (set (dict_keys g))) \<and>
         (\<forall>n. n \<notin> set L \<longrightarrow> n \<noteq> pre \<longrightarrow> n \<noteq> post \<longrightarrow> map_of gx n = map_of g n) \<and>
         (\<exists>blk. map_of gx post = Some blk \<and> jump_targets (base blk) = exits)"
proof -
  let ?pre = "ControlLabel c" and ?post = "ControlLabel (c + 1)"
  let ?pb = "mk_bb ?pre (ControlLabel (c + 3)) False [?post]"
  let ?qb = "mk_bb ?post (ControlLabel (c + 2)) False exits"
  let ?g1 = "add_node (add_node g ?pb) ?qb"
  let ?L1 = "set_add L ?pre"
  from je have r: "redirect_exits exits ?pre ?L1 ?g1 = Inr gx"
    and eqs: "c' = c + 4" "L1 = ?L1" "pre = ?pre" "post = ?post"
    by (auto simp: join_exits_def Let_def split: sum.splits)
  have d1: "distinct (dict_keys ?g1)" using d by (simp add: distinct_add_node)
  have k1: "keyed_by_begin ?g1" using k by (simp add: keyed_by_begin_add_node)
  have keys1: "set (dict_keys ?g1) = insert ?pre (insert ?post (set (dict_keys g)))"
    by (auto simp: dict_keys_add_node mk_bb_def)
  have m1: "map_of ?g1 = (map_of g)(?pre \<mapsto> ?pb, ?post \<mapsto> ?qb)"
    by (simp add: map_of_add_node mk_bb_def)
  have "?post \<notin> set (dict_keys g)" using f by (simp add: fresh_labels_def)
  then have pn: "?post \<notin> set ?L1" using sub by (auto simp: set_add_def)
  from redirect_exits_frame [OF r d1 k1]
  have fr: "distinct (dict_keys gx)" "keyed_by_begin gx" "set (dict_keys gx) = set (dict_keys ?g1)"
    "\<forall>n. n \<notin> set ?L1 \<longrightarrow> map_of gx n = map_of ?g1 n" by auto
  have "map_of gx ?post = Some ?qb" using fr(4) pn by (simp add: m1)
  moreover have "map_of gx n = map_of g n" if "n \<notin> set L" "n \<noteq> ?pre" "n \<noteq> ?post" for n
    using fr(4) that by (simp add: m1 set_add_def)
  ultimately show ?thesis using eqs fr keys1 by (auto simp: mk_bb_def)
qed

lemma pop_insiders_frame:
  "pop_insiders g ks acc = Inr (insd, g') \<Longrightarrow>
   map_of g' = (\<lambda>n. if n \<in> set ks then None else map_of g n) \<and>
   (distinct (dict_keys g) \<longrightarrow> distinct (dict_keys g')) \<and>
   (keyed_by_begin g \<longrightarrow> keyed_by_begin g')"
proof (induction ks arbitrary: g acc)
  case Nil
  then show ?case by auto
next
  case (Cons x ks)
  from Cons.prems obtain b where pop: "dict_pop g x = Inr (BasicBlock b, AList.delete x g)"
    and rest: "pop_insiders (AList.delete x g) ks (set_add acc b) = Inr (insd, g')"
    by (auto simp: dict_pop_def split: option.splits block.splits)
  from Cons.IH [OF rest] show ?case
    by (auto simp: delete_conv' distinct_dict_delete keyed_by_begin_delete fun_eq_iff)
qed

lemma pop_insiders_keys:
  "pop_insiders g ks acc = Inr (insd, g') \<Longrightarrow>
   distinct ks \<and> set ks \<subseteq> set (dict_keys g) \<and>
   (keyed_by_begin g \<longrightarrow> bb_begin ` set insd \<subseteq> bb_begin ` set acc \<union> set ks)"
proof (induction ks arbitrary: g acc)
  case Nil
  then show ?case by auto
next
  case (Cons x ks)
  from Cons.prems obtain b where m: "map_of g x = Some (BasicBlock b)"
    and rest: "pop_insiders (AList.delete x g) ks (set_add acc b) = Inr (insd, g')"
    by (auto simp: dict_pop_def split: option.splits block.splits)
  note IH = Cons.IH [OF rest]
  have xk: "x \<in> set (dict_keys g)" using m by (simp add: in_keys_iff)
  have sub: "set ks \<subseteq> set (dict_keys g) - {x}"
    using IH by (auto simp: in_keys_iff delete_conv' split: if_splits)
  have kb: "bb_begin ` set insd \<subseteq> bb_begin ` set acc \<union> set (x # ks)" if k: "keyed_by_begin g"
  proof -
    from keyed_by_beginD [OF k m] have "bb_begin b = x" by simp
    moreover from IH k have "bb_begin ` set insd \<subseteq> bb_begin ` set (set_add acc b) \<union> set ks"
      by (simp add: keyed_by_begin_delete)
    ultimately show ?thesis by (auto simp: set_add_def split: if_splits)
  qed
  from IH xk sub kb show ?case by auto
qed

lemma loop_step_Inr:
  assumes "loop_step rec st a vars L = Some (Inr (st1, vars1))"
  shows "\<exists>c1 L1 gx pre post insd g2 body st2 blk.
     select_exits (clg st) (graph_at st a) L vars = Inr (c1, L1, gx, pre, post) \<and>
     pop_insiders gx L1 [] = Inr (insd, g2) \<and>
     length (fst (find_headers_and_entries (graph_at st a) L)) = 1 \<and>
     rec (fst (alloc (set_graph (st\<lparr>clg := c1\<rparr>) a g2) body))
         (snd (alloc (set_graph (st\<lparr>clg := c1\<rparr>) a g2) body)) = Some (Inr st2) \<and>
     st1 = set_graph st2 a (dict_set (graph_at st2 a)
             (hd (fst (find_headers_and_entries (graph_at st a) L))) blk) \<and>
     bb_begin (base blk) = hd (fst (find_headers_and_entries (graph_at st a) L)) \<and>
     jump_targets (base blk) = [post] \<and> vars1 = Some (pre, post)"
proof -
  let ?g = "graph_at st a"
  let ?hs = "fst (find_headers_and_entries ?g L)"
  obtain c1 L1 gx pre post where
    sel: "select_exits (clg st) ?g L vars = Inr (c1, L1, gx, pre, post)"
    using assms by (auto simp: loop_step_def Let_def split: sum.splits prod.splits)
  obtain insd g2 where pop: "pop_insiders gx L1 [] = Inr (insd, g2)"
    using assms sel by (auto simp: loop_step_def Let_def split: sum.splits prod.splits)
  have len: "length ?hs = 1"
    using assms sel pop by (auto simp: loop_step_def Let_def split: if_splits)
  obtain body where bd: "loop_body_of (hd ?hs) ?hs insd [] = Inr body"
    using assms sel pop len by (auto simp: loop_step_def Let_def split: sum.splits)
  obtain e where ne: "next_inst_offset (hd ?hs) = Inr e"
    using assms sel pop len bd by (auto simp: loop_step_def Let_def split: sum.splits)
  let ?al = "alloc (set_graph (st\<lparr>clg := c1\<rparr>) a g2) body"
  let ?blk = "RegionBlock
        \<lparr>bb_begin = hd ?hs, bb_end = e, fallthrough = False,
         jump_targets = [post], backedges = []\<rparr>
        ''loop'' (HeadersDict (header_nodes ?hs insd)) (snd ?al) (Some pre)"
  obtain st2 where r: "rec (fst ?al) (snd ?al) = Some (Inr st2)"
    using assms sel pop len bd ne
    by (auto simp: loop_step_def Let_def split: sum.splits prod.splits option.splits)
  have s1: "st1 = set_graph st2 a (dict_set (graph_at st2 a) (hd ?hs) ?blk)"
    and v1: "vars1 = Some (pre, post)"
    using assms sel pop len bd ne r
    by (auto simp: loop_step_def Let_def split: sum.splits prod.splits option.splits)
  have "bb_begin (base ?blk) = hd ?hs" "jump_targets (base ?blk) = [post]"
    by simp_all
  with sel pop len r s1 v1 show ?thesis by blast
qed

lemma select_exits_Inr:
  assumes "select_exits c g L vars = Inr (c1, L1, gx, pre, post)"
  shows "\<exists>pre_exits post_exits. find_exits L g = Inr (pre_exits, post_exits) \<and>
      ((length post_exits \<noteq> 1 \<and> join_exits c L g post_exits = Inr (c1, L1, gx, pre, post)) \<or>
       (c1 = c \<and> L1 = L \<and> gx = g \<and>
          (vars = Some (pre, post) \<or> (length post_exits = 1 \<and> post = hd post_exits))))"
  using assms
  by (auto simp: select_exits_def split: sum.splits prod.splits option.splits if_splits)

lemma select_exits_frame:
  assumes sel: "select_exits c g L vars = Inr (c1, L1, gx, pre, post)"
    and d: "distinct (dict_keys g)" and k: "keyed_by_begin g"
    and f: "fresh_labels c g" and sub: "set L \<subseteq> set (dict_keys g)"
    and S: "S \<subseteq> set (dict_keys g)"
    and noedge: "\<forall>u\<in>set L. set (targets_of g u) \<inter> S = {}"
    and vo: "case vars of None \<Rightarrow> True | Some (p, q) \<Rightarrow> q \<notin> S"
  shows "c \<le> c1 \<and> distinct (dict_keys gx) \<and> keyed_by_begin gx \<and> fresh_labels c1 gx \<and>
    set L \<subseteq> set L1 \<and>
    (\<forall>n\<in>set (dict_keys g). n \<notin> set L \<longrightarrow> n \<notin> set L1 \<and> map_of gx n = map_of g n) \<and>
    (\<forall>n\<in>set (dict_keys gx). n \<notin> set L1 \<longrightarrow>
        (n \<in> set (dict_keys g) \<and> n \<notin> set L) \<or> set (targets_of gx n) \<inter> S = {}) \<and>
    post \<notin> S \<and>
    set L1 \<subseteq> insert (ControlLabel c) (set L) \<and> (distinct L1 \<longrightarrow> distinct L) \<and>
    set (dict_keys gx) - set L1 \<subseteq> insert (ControlLabel (c + 1)) (set (dict_keys g) - set L)"
proof -
  from select_exits_Inr [OF sel] obtain pre_exits post_exits where
    fe: "find_exits L g = Inr (pre_exits, post_exits)" and
    cases: "(length post_exits \<noteq> 1 \<and> join_exits c L g post_exits = Inr (c1, L1, gx, pre, post)) \<or>
       (c1 = c \<and> L1 = L \<and> gx = g \<and>
          (vars = Some (pre, post) \<or> (length post_exits = 1 \<and> post = hd post_exits)))"
    by blast
  have pe: "set post_exits \<inter> S = {}"
    using find_exits_post [OF fe] noedge by blast
  from cases show ?thesis
  proof
    assume "length post_exits \<noteq> 1 \<and> join_exits c L g post_exits = Inr (c1, L1, gx, pre, post)"
    then have je: "join_exits c L g post_exits = Inr (c1, L1, gx, pre, post)" by simp
    note J = join_exits_frame [OF je d k f sub]
    from J have c1: "c1 = c + 4" and L1: "L1 = set_add L (ControlLabel c)"
      and pre: "pre = ControlLabel c" and post: "post = ControlLabel (c + 1)"
      and dx: "distinct (dict_keys gx)" and kx: "keyed_by_begin gx"
      and keys: "set (dict_keys gx) = insert pre (insert post (set (dict_keys g)))"
      and same: "\<forall>n. n \<notin> set L \<longrightarrow> n \<noteq> pre \<longrightarrow> n \<noteq> post \<longrightarrow> map_of gx n = map_of g n"
      by simp_all
    from J obtain blk where pb: "map_of gx post = Some blk"
      and pt: "jump_targets (base blk) = post_exits" by blast
    have sL1: "set L1 = insert (ControlLabel c) (set L)"
      by (auto simp: L1 set_add_def)
    have npre: "ControlLabel c \<notin> set (dict_keys g)" and npost: "ControlLabel (c + 1) \<notin> set (dict_keys g)"
      using f by (simp_all add: fresh_labels_def)
    have fr: "fresh_labels c1 gx"
      using f by (auto simp: fresh_labels_def keys pre post c1)
    have a: "\<forall>n\<in>set (dict_keys g). n \<notin> set L \<longrightarrow> n \<notin> set L1 \<and> map_of gx n = map_of g n"
      using same npre npost by (auto simp: sL1 pre post)
    have b: "\<forall>n\<in>set (dict_keys gx). n \<notin> set L1 \<longrightarrow>
        (n \<in> set (dict_keys g) \<and> n \<notin> set L) \<or> set (targets_of gx n) \<inter> S = {}"
    proof (intro ballI impI)
      fix n assume n: "n \<in> set (dict_keys gx)" and nl: "n \<notin> set L1"
      from n keys have "n = pre \<or> n = post \<or> n \<in> set (dict_keys g)" by auto
      with nl sL1 pre have "n = post \<or> (n \<in> set (dict_keys g) \<and> n \<notin> set L)" by auto
      then show "(n \<in> set (dict_keys g) \<and> n \<notin> set L) \<or> set (targets_of gx n) \<inter> S = {}"
      proof
        assume "n = post"
        then have "targets_of gx n = post_exits" by (simp add: targets_of_def pb pt)
        with pe show ?thesis by simp
      qed simp
    qed
    have pS: "post \<notin> S" using S npost post by auto
    have dl: "distinct L1 \<longrightarrow> distinct L"
      by (auto simp: L1 set_add_def split: if_splits)
    have ks: "set (dict_keys gx) - set L1 \<subseteq>
        insert (ControlLabel (c + 1)) (set (dict_keys g) - set L)"
      by (auto simp: keys sL1 pre post)
    have s1: "set L1 \<subseteq> insert (ControlLabel c) (set L)" by (simp add: sL1)
    have s2: "set L \<subseteq> set L1" by (auto simp: sL1)
    have cc: "c \<le> c1" by (simp add: c1)
    from cc dx kx fr s2 a b pS s1 dl ks show ?thesis by blast
  next
    assume N: "c1 = c \<and> L1 = L \<and> gx = g \<and>
          (vars = Some (pre, post) \<or> (length post_exits = 1 \<and> post = hd post_exits))"
    have "post \<notin> S"
    proof (cases "vars = Some (pre, post)")
      case True
      with vo show ?thesis by simp
    next
      case False
      with N have l: "length post_exits = 1" and p: "post = hd post_exits" by auto
      from l have "post_exits \<noteq> []" by auto
      with p have "post \<in> set post_exits" by simp
      with pe show ?thesis by auto
    qed
    with N d k f show ?thesis by auto
  qed
qed

lemma select_exits_mono:
  "select_exits c g L vars = Inr (c1, L1, gx, pre, post) \<Longrightarrow> c \<le> c1"
  by (auto simp: select_exits_def join_exits_def Let_def
      split: sum.splits prod.splits option.splits if_splits)

lemma loop_step_keeps:
  assumes ls: "loop_step rec st a vars L = Some (Inr (st1, vars1))"
    and ko: "keeps_others rec"
  shows "clg st \<le> clg st1 \<and> length (heap st) \<le> length (heap st1) \<and>
         (\<forall>x<length (heap st). x \<noteq> a \<longrightarrow> heap st1 ! x = heap st ! x)"
proof -
  from loop_step_Inr [OF ls] obtain c1 L1 gx pre post insd g2 body st2 blk where
    sel: "select_exits (clg st) (graph_at st a) L vars = Inr (c1, L1, gx, pre, post)" and
    r: "rec (fst (alloc (set_graph (st\<lparr>clg := c1\<rparr>) a g2) body))
         (snd (alloc (set_graph (st\<lparr>clg := c1\<rparr>) a g2) body)) = Some (Inr st2)" and
    s1: "st1 = set_graph st2 a (dict_set (graph_at st2 a)
             (hd (fst (find_headers_and_entries (graph_at st a) L))) blk)"
    by blast
  let ?m = "fst (alloc (set_graph (st\<lparr>clg := c1\<rparr>) a g2) body)"
  let ?b = "snd (alloc (set_graph (st\<lparr>clg := c1\<rparr>) a g2) body)"
  have b: "?b = length (heap st)" by (simp add: alloc_def set_graph_def)
  have hm: "heap ?m = (heap st)[a := g2] @ [body]" and cm: "clg ?m = c1"
    by (simp_all add: alloc_def set_graph_def)
  from ko r have K: "clg ?m \<le> clg st2" "length (heap ?m) \<le> length (heap st2)"
    "\<forall>x<length (heap ?m). x \<noteq> ?b \<longrightarrow> heap st2 ! x = heap ?m ! x"
    unfolding keeps_others_def by blast+
  have c: "clg st \<le> clg st1"
    using select_exits_mono [OF sel] K(1) cm by (simp add: s1 set_graph_def)
  have l: "length (heap st) \<le> length (heap st1)"
    using K(2) hm by (simp add: s1 set_graph_def)
  have h: "\<forall>x<length (heap st). x \<noteq> a \<longrightarrow> heap st1 ! x = heap st ! x"
  proof (intro allI impI)
    fix x assume x: "x < length (heap st)" and xa: "x \<noteq> a"
    have "heap st1 ! x = heap st2 ! x" using xa by (simp add: s1 set_graph_def)
    also have "\<dots> = heap ?m ! x" using K(3) x b hm by simp
    also have "\<dots> = heap st ! x" using x xa by (simp add: hm nth_append)
    finally show "heap st1 ! x = heap st ! x" .
  qed
  from c l h show ?thesis by simp
qed

lemma for_loops_keeps:
  "for_loops rec st a vars loops = Some (Inr st') \<Longrightarrow> keeps_others rec \<Longrightarrow>
   clg st \<le> clg st' \<and> length (heap st) \<le> length (heap st') \<and>
   (\<forall>x<length (heap st). x \<noteq> a \<longrightarrow> heap st' ! x = heap st ! x)"
proof (induction loops arbitrary: st vars)
  case Nil
  then show ?case by simp
next
  case (Cons L rest)
  from Cons.prems(1) obtain st1 vars1 where
    ls: "loop_step rec st a vars L = Some (Inr (st1, vars1))" and
    fl: "for_loops rec st1 a vars1 rest = Some (Inr st')"
    by (auto split: option.splits sum.splits prod.splits)
  note A = loop_step_keeps [OF ls Cons.prems(2)]
  note B = Cons.IH [OF fl Cons.prems(2)]
  from A B have "clg st \<le> clg st'" "length (heap st) \<le> length (heap st')" by simp_all
  moreover have "\<forall>x<length (heap st). x \<noteq> a \<longrightarrow> heap st' ! x = heap st ! x"
  proof (intro allI impI)
    fix x assume x: "x < length (heap st)" and xa: "x \<noteq> a"
    with A have "x < length (heap st1)" by simp
    with B xa have "heap st' ! x = heap st1 ! x" by simp
    with A x xa show "heap st' ! x = heap st ! x" by simp
  qed
  ultimately show ?case by simp
qed

lemma restructure_loop_keeps: "keeps_others (restructure_loop n sccf)"
proof (induction n)
  case 0
  show ?case by (simp add: keeps_others_def)
next
  case (Suc n)
  show ?case
    unfolding keeps_others_def
  proof (intro allI impI)
    fix st b st'
    assume "restructure_loop (Suc n) sccf st b = Some (Inr st')"
    then have "for_loops (restructure_loop n sccf) st b None (loops_of sccf (graph_at st b)) =
      Some (Inr st')" by simp
    from for_loops_keeps [OF this Suc]
    show "clg st \<le> clg st' \<and> length (heap st) \<le> length (heap st') \<and>
        (\<forall>x<length (heap st). x \<noteq> b \<longrightarrow> heap st' ! x = heap st ! x)" .
  qed
qed

lemma loop_step_frame:
  assumes ls: "loop_step rec st a vars L = Some (Inr (st1, vars1))"
    and ko: "keeps_others rec"
    and al: "a < length (heap st)"
    and d: "distinct (dict_keys (graph_at st a))" and k: "keyed_by_begin (graph_at st a)"
    and f: "fresh_labels (clg st) (graph_at st a)"
    and sub: "set L \<subseteq> set (dict_keys (graph_at st a))"
    and S: "S \<subseteq> set (dict_keys (graph_at st a))"
    and noedge: "\<forall>u\<in>set L. set (targets_of (graph_at st a) u) \<inter> S = {}"
    and vo: "case vars of None \<Rightarrow> True | Some (p, q) \<Rightarrow> q \<notin> S"
  shows "a < length (heap st1) \<and>
         distinct (dict_keys (graph_at st1 a)) \<and> keyed_by_begin (graph_at st1 a) \<and>
         fresh_labels (clg st1) (graph_at st1 a) \<and>
         (\<forall>n\<in>set (dict_keys (graph_at st a)). n \<notin> set L \<longrightarrow>
             map_of (graph_at st1 a) n = map_of (graph_at st a) n) \<and>
         (\<forall>n\<in>set (dict_keys (graph_at st1 a)).
             (n \<in> set (dict_keys (graph_at st a)) \<and> n \<notin> set L) \<or>
             set (targets_of (graph_at st1 a) n) \<inter> S = {}) \<and>
         (case vars1 of None \<Rightarrow> True | Some (p, q) \<Rightarrow> q \<notin> S) \<and>
         distinct L \<and>
         (\<exists>h\<in>set L. set (dict_keys (graph_at st1 a)) \<subseteq>
            insert h (insert (ControlLabel (clg st + 1))
              (set (dict_keys (graph_at st a)) - set L)))"
proof -
  let ?g = "graph_at st a"
  let ?hs = "fst (find_headers_and_entries ?g L)"
  let ?h = "hd ?hs"
  from loop_step_Inr [OF ls] obtain c1 L1 gx pre post insd g2 body st2 blk where
    sel: "select_exits (clg st) ?g L vars = Inr (c1, L1, gx, pre, post)" and
    pop: "pop_insiders gx L1 [] = Inr (insd, g2)" and
    len: "length ?hs = 1" and
    r: "rec (fst (alloc (set_graph (st\<lparr>clg := c1\<rparr>) a g2) body))
         (snd (alloc (set_graph (st\<lparr>clg := c1\<rparr>) a g2) body)) = Some (Inr st2)" and
    s1: "st1 = set_graph st2 a (dict_set (graph_at st2 a) ?h blk)" and
    bb: "bb_begin (base blk) = ?h" and jt: "jump_targets (base blk) = [post]" and
    v1: "vars1 = Some (pre, post)"
    by blast
  note F = select_exits_frame [OF sel d k f sub S noedge vo]
  from F have cc: "clg st \<le> c1" and dx: "distinct (dict_keys gx)" and kx: "keyed_by_begin gx"
    and fx: "fresh_labels c1 gx" and LL: "set L \<subseteq> set L1"
    and same: "\<forall>n\<in>set (dict_keys ?g). n \<notin> set L \<longrightarrow> n \<notin> set L1 \<and> map_of gx n = map_of ?g n"
    and other: "\<forall>n\<in>set (dict_keys gx). n \<notin> set L1 \<longrightarrow>
        (n \<in> set (dict_keys ?g) \<and> n \<notin> set L) \<or> set (targets_of gx n) \<inter> S = {}"
    and pS: "post \<notin> S"
    and dL: "distinct L1 \<longrightarrow> distinct L"
    and kx1: "set (dict_keys gx) - set L1 \<subseteq>
        insert (ControlLabel (clg st + 1)) (set (dict_keys ?g) - set L)"
    by simp_all
  from pop_insiders_keys [OF pop] dL have distL: "distinct L" by simp
  note P = pop_insiders_frame [OF pop]
  from P dx kx have m2: "map_of g2 = (\<lambda>n. if n \<in> set L1 then None else map_of gx n)"
    and d2: "distinct (dict_keys g2)" and k2: "keyed_by_begin g2" by simp_all
  let ?m = "fst (alloc (set_graph (st\<lparr>clg := c1\<rparr>) a g2) body)"
  let ?b = "snd (alloc (set_graph (st\<lparr>clg := c1\<rparr>) a g2) body)"
  have b: "?b = length (heap st)" by (simp add: alloc_def set_graph_def)
  have hm: "heap ?m = (heap st)[a := g2] @ [body]" and cm: "clg ?m = c1"
    by (simp_all add: alloc_def set_graph_def)
  from ko r have K: "clg ?m \<le> clg st2" "length (heap ?m) \<le> length (heap st2)"
    "\<forall>x<length (heap ?m). x \<noteq> ?b \<longrightarrow> heap st2 ! x = heap ?m ! x"
    unfolding keeps_others_def by blast+
  have a2: "a < length (heap st2)" using K(2) hm al by simp
  have "heap st2 ! a = heap ?m ! a" using K(3) al b hm by simp
  also have "\<dots> = g2" using al by (simp add: hm nth_append)
  finally have h2: "heap st2 ! a = g2" .
  have g2: "graph_at st2 a = g2" using a2 h2 by (simp add: graph_at_def)
  have a1: "a < length (heap st1)" using a2 by (simp add: s1 set_graph_def)
  have "heap st1 ! a = dict_set g2 ?h blk"
    using a2 by (simp add: s1 set_graph_def g2)
  then have g1: "graph_at st1 a = dict_set g2 ?h blk"
    using a1 by (simp add: graph_at_def)
  have c1: "c1 \<le> clg st1" using K(1) cm by (simp add: s1 set_graph_def)
  have m1: "map_of (graph_at st1 a) = (map_of g2)(?h \<mapsto> blk)"
    by (simp add: g1 dict_set_def update_conv')
  have hs: "set ?hs \<subseteq> set L" by (auto simp: headers_set header_set_def)
  from len have "?hs \<noteq> []" by auto
  then have "?h \<in> set ?hs" by simp
  with hs have hL: "?h \<in> set L" by blast
  have keys1: "set (dict_keys (graph_at st1 a)) = insert ?h (set (dict_keys gx) - set L1)"
    by (auto simp: in_keys_iff m1 m2 split: if_splits)
  have D: "distinct (dict_keys (graph_at st1 a))"
    using d2 by (simp add: g1 dict_set_def dict_keys_def distinct_update)
  have Kb: "keyed_by_begin (graph_at st1 a)"
    using k2 bb by (simp add: g1 dict_set_def keyed_by_begin_update)
  have hk: "?h \<in> set (dict_keys ?g)" using hL sub by blast
  have fg: "fresh_labels (clg st1) ?g"
    using f cc c1 by (auto simp: fresh_labels_def)
  have Fr: "fresh_labels (clg st1) (graph_at st1 a)"
    unfolding fresh_labels_def
  proof (intro allI impI)
    fix i assume i: "clg st1 \<le> i"
    have "ControlLabel i \<noteq> ?h" using hk fg i by (auto simp: fresh_labels_def)
    moreover have "ControlLabel i \<notin> set (dict_keys gx)"
      using fx c1 i by (auto simp: fresh_labels_def)
    ultimately show "ControlLabel i \<notin> set (dict_keys (graph_at st1 a))"
      by (simp add: keys1)
  qed
  have Same: "\<forall>n\<in>set (dict_keys ?g). n \<notin> set L \<longrightarrow>
             map_of (graph_at st1 a) n = map_of ?g n"
  proof (intro ballI impI)
    fix n assume n: "n \<in> set (dict_keys ?g)" and nL: "n \<notin> set L"
    from same n nL have n1: "n \<notin> set L1" and e: "map_of gx n = map_of ?g n" by simp_all
    from nL hL have "n \<noteq> ?h" by auto
    then show "map_of (graph_at st1 a) n = map_of ?g n"
      by (simp add: m1 m2 n1 e)
  qed
  have Other: "\<forall>n\<in>set (dict_keys (graph_at st1 a)).
             (n \<in> set (dict_keys ?g) \<and> n \<notin> set L) \<or>
             set (targets_of (graph_at st1 a) n) \<inter> S = {}"
  proof (intro ballI)
    fix n assume n: "n \<in> set (dict_keys (graph_at st1 a))"
    show "(n \<in> set (dict_keys ?g) \<and> n \<notin> set L) \<or>
             set (targets_of (graph_at st1 a) n) \<inter> S = {}"
    proof (cases "n = ?h")
      case True
      then have "targets_of (graph_at st1 a) n = [post]"
        by (simp add: targets_of_def m1 jt)
      with pS show ?thesis by simp
    next
      case False
      with n keys1 have nx: "n \<in> set (dict_keys gx)" and n1: "n \<notin> set L1" by auto
      have "targets_of (graph_at st1 a) n = targets_of gx n"
        using False n1 by (simp add: targets_of_def m1 m2)
      with other nx n1 show ?thesis by auto
    qed
  qed
  have V: "case vars1 of None \<Rightarrow> True | Some (p, q) \<Rightarrow> q \<notin> S"
    using pS by (simp add: v1)
  have "set (dict_keys (graph_at st1 a)) \<subseteq>
      insert ?h (insert (ControlLabel (clg st + 1)) (set (dict_keys ?g) - set L))"
    using kx1 by (auto simp: keys1)
  with hL have E: "\<exists>h\<in>set L. set (dict_keys (graph_at st1 a)) \<subseteq>
      insert h (insert (ControlLabel (clg st + 1)) (set (dict_keys ?g) - set L))"
    by blast
  from a1 D Kb Fr Same Other V distL E show ?thesis by blast
qed

lemma find_exits_loop_keys:
  "find_exits_loop g loop xs pre post = Inr r \<Longrightarrow> set xs \<subseteq> set (dict_keys g)"
proof (induction xs arbitrary: pre post)
  case Nil
  then show ?case by simp
next
  case (Cons x xs)
  from Cons.prems obtain blk where m: "map_of g x = Some blk"
    by (auto split: option.splits)
  then have "x \<in> set (dict_keys g)" by (simp add: in_keys_iff)
  moreover from Cons.prems m obtain pre1 post1 where
    "find_exits_loop g loop xs pre1 post1 = Inr r" by (auto simp: Let_def)
  from Cons.IH [OF this] have "set xs \<subseteq> set (dict_keys g)" .
  ultimately show ?case by simp
qed

lemma find_exits_keys: "find_exits L g = Inr r \<Longrightarrow> set L \<subseteq> set (dict_keys g)"
  unfolding find_exits_def by (rule find_exits_loop_keys)

lemma select_exits_keys:
  "select_exits c g L vars = Inr r \<Longrightarrow> set L \<subseteq> set (dict_keys g)"
  by (auto simp: select_exits_def dest!: find_exits_keys split: sum.splits prod.splits)

lemma listed_keys:
  "listed_downstream_first g loops \<Longrightarrow> M \<in> set loops \<Longrightarrow> set M \<subseteq> set (dict_keys g)"
  by (induction loops) auto

lemma listed_frame:
  "listed_downstream_first g loops \<Longrightarrow>
   (\<forall>M\<in>set loops. \<forall>n\<in>set M. map_of g1 n = map_of g n) \<Longrightarrow>
   listed_downstream_first g1 loops"
proof (induction loops)
  case Nil
  then show ?case by simp
next
  case (Cons L rest)
  have same: "\<forall>n\<in>set L. map_of g1 n = map_of g n" using Cons.prems(2) by simp
  have k: "set L \<subseteq> set (dict_keys g1)"
  proof
    fix n assume n: "n \<in> set L"
    with Cons.prems(1) have "n \<in> set (dict_keys g)" by auto
    with same n show "n \<in> set (dict_keys g1)" by (simp add: in_keys_iff)
  qed
  have t: "\<forall>u\<in>set L. targets_of g1 u = targets_of g u"
    using same by (simp add: targets_of_def)
  have "listed_downstream_first g1 rest" using Cons by simp
  with k t Cons.prems(1) show ?case by simp
qed

lemma header_set_frame:
  assumes M: "set M \<subseteq> S"
    and same: "\<forall>n\<in>set (dict_keys g). n \<notin> set L \<longrightarrow> map_of g1 n = map_of g n"
    and other: "\<forall>n\<in>set (dict_keys g1).
        (n \<in> set (dict_keys g) \<and> n \<notin> set L) \<or> set (targets_of g1 n) \<inter> S = {}"
    and noedge: "\<forall>u\<in>set L. set (targets_of g u) \<inter> S = {}"
  shows "header_set g1 M = header_set g M"
proof (rule set_eqI)
  fix t
  show "t \<in> header_set g1 M \<longleftrightarrow> t \<in> header_set g M"
  proof
    assume "t \<in> header_set g1 M"
    then obtain n where t: "t \<in> set M" and n: "n \<in> set (dict_keys g1)" "n \<notin> set M"
      and e: "t \<in> set (targets_of g1 n)" by (auto simp: header_set_def)
    from t M e have "set (targets_of g1 n) \<inter> S \<noteq> {}" by auto
    with other n have ng: "n \<in> set (dict_keys g)" and nl: "n \<notin> set L" by auto
    with same have "targets_of g1 n = targets_of g n" by (simp add: targets_of_def)
    with t n ng e show "t \<in> header_set g M" by (auto simp: header_set_def)
  next
    assume "t \<in> header_set g M"
    then obtain n where t: "t \<in> set M" and n: "n \<in> set (dict_keys g)" "n \<notin> set M"
      and e: "t \<in> set (targets_of g n)" by (auto simp: header_set_def)
    from t M e have "set (targets_of g n) \<inter> S \<noteq> {}" by auto
    with noedge have nl: "n \<notin> set L" by auto
    with same n have m: "map_of g1 n = map_of g n" by simp
    then have "targets_of g1 n = targets_of g n" by (simp add: targets_of_def)
    moreover from m n have "n \<in> set (dict_keys g1)" by (simp add: in_keys_iff)
    ultimately show "t \<in> header_set g1 M" using t n e by (auto simp: header_set_def)
  qed
qed

lemma for_loops_not_Inr:
  assumes ko: "keeps_others rec"
  shows "a < length (heap st) \<Longrightarrow> distinct (dict_keys (graph_at st a)) \<Longrightarrow>
    keyed_by_begin (graph_at st a) \<Longrightarrow> fresh_labels (clg st) (graph_at st a) \<Longrightarrow>
    listed_downstream_first (graph_at st a) loops \<Longrightarrow>
    (case vars of None \<Rightarrow> True | Some (p, q) \<Rightarrow> q \<notin> \<Union>(set ` set loops)) \<Longrightarrow>
    L \<in> set loops \<Longrightarrow>
    length (fst (find_headers_and_entries (graph_at st a) L)) \<noteq> 1 \<Longrightarrow>
    for_loops rec st a vars loops \<noteq> Some (Inr st')"
proof (induction loops arbitrary: st vars)
  case Nil
  then show ?case by simp
next
  case (Cons L0 rest)
  let ?g = "graph_at st a"
  let ?S = "\<Union>(set ` set rest)"
  show ?case
  proof
    assume fl: "for_loops rec st a vars (L0 # rest) = Some (Inr st')"
    then obtain st1 vars1 where
      ls: "loop_step rec st a vars L0 = Some (Inr (st1, vars1))" and
      fl1: "for_loops rec st1 a vars1 rest = Some (Inr st')"
      by (auto split: option.splits sum.splits prod.splits)
    from loop_step_Inr [OF ls] have one: "length (fst (find_headers_and_entries ?g L0)) = 1"
      by blast
    with Cons.prems(7,8) have Lr: "L \<in> set rest" by auto
    from Cons.prems(5) have sub: "set L0 \<subseteq> set (dict_keys ?g)"
      and ld: "listed_downstream_first ?g rest"
      and ne0: "\<forall>M\<in>set rest. \<forall>u\<in>set L0. set (targets_of ?g u) \<inter> set M = {}"
      and dj: "\<forall>M\<in>set rest. set L0 \<inter> set M = {}"
      by simp_all
    have S: "?S \<subseteq> set (dict_keys ?g)" using listed_keys [OF ld] by auto
    have noedge: "\<forall>u\<in>set L0. set (targets_of ?g u) \<inter> ?S = {}" using ne0 by auto
    have vo: "case vars of None \<Rightarrow> True | Some (p, q) \<Rightarrow> q \<notin> ?S"
      using Cons.prems(6) by (auto split: option.splits)
    note F = loop_step_frame [OF ls ko Cons.prems(1,2,3,4) sub S noedge vo]
    let ?g1 = "graph_at st1 a"
    from F have a1: "a < length (heap st1)" and d1: "distinct (dict_keys ?g1)"
      and k1: "keyed_by_begin ?g1" and f1: "fresh_labels (clg st1) ?g1"
      and same: "\<forall>n\<in>set (dict_keys ?g). n \<notin> set L0 \<longrightarrow> map_of ?g1 n = map_of ?g n"
      and other: "\<forall>n\<in>set (dict_keys ?g1).
             (n \<in> set (dict_keys ?g) \<and> n \<notin> set L0) \<or> set (targets_of ?g1 n) \<inter> ?S = {}"
      and vo1: "case vars1 of None \<Rightarrow> True | Some (p, q) \<Rightarrow> q \<notin> ?S"
      by simp_all
    have "\<forall>M\<in>set rest. \<forall>n\<in>set M. map_of ?g1 n = map_of ?g n"
    proof (intro ballI)
      fix M n assume M: "M \<in> set rest" and n: "n \<in> set M"
      with S have "n \<in> set (dict_keys ?g)" by auto
      moreover from dj M n have "n \<notin> set L0" by auto
      ultimately show "map_of ?g1 n = map_of ?g n" using same by simp
    qed
    from listed_frame [OF ld this] have ld1: "listed_downstream_first ?g1 rest" .
    have "set L \<subseteq> ?S" using Lr by auto
    from header_set_frame [OF this same other noedge]
    have "header_set ?g1 L = header_set ?g L" .
    with Cons.prems(8) have bad1: "length (fst (find_headers_and_entries ?g1 L)) \<noteq> 1"
      by (simp add: headers_length)
    from Cons.IH [OF a1 d1 k1 f1 ld1 vo1 Lr bad1] fl1 show False by simp
  qed
qed

lemma replace_backedge_begin:
  "replace_backedge (BasicBlock node) h = Inr blk \<Longrightarrow> bb_begin (base blk) = bb_begin node"
  by (auto simp: replace_backedge_def split: if_splits)

lemma loop_body_of_frame:
  "loop_body_of h hs insd acc = Inr body \<Longrightarrow>
   set (dict_keys body) \<subseteq> set (dict_keys acc) \<union> (bb_begin ` set insd - set hs) \<and>
   (distinct (dict_keys acc) \<longrightarrow> distinct (dict_keys body)) \<and>
   (keyed_by_begin acc \<longrightarrow> keyed_by_begin body)"
proof (induction insd arbitrary: acc)
  case Nil
  then show ?case by simp
next
  case (Cons node rest)
  show ?case
  proof (cases "bb_begin node \<in> set hs")
    case True
    with Cons.prems have "loop_body_of h hs rest acc = Inr body" by simp
    from Cons.IH [OF this] show ?thesis by auto
  next
    case False
    with Cons.prems obtain blk where rb: "replace_backedge (BasicBlock node) h = Inr blk"
      and r: "loop_body_of h hs rest (dict_set acc (bb_begin node) blk) = Inr body"
      by (auto split: sum.splits)
    note IH = Cons.IH [OF r]
    have ks: "set (dict_keys (dict_set acc (bb_begin node) blk)) =
        insert (bb_begin node) (set (dict_keys acc))"
      by (auto simp: in_keys_iff dict_set_def update_conv' split: if_splits)
    have d: "distinct (dict_keys acc) \<Longrightarrow> distinct (dict_keys (dict_set acc (bb_begin node) blk))"
      by (simp add: dict_set_def dict_keys_def distinct_update)
    have k: "keyed_by_begin acc \<Longrightarrow> keyed_by_begin (dict_set acc (bb_begin node) blk)"
      using replace_backedge_begin [OF rb] by (simp add: dict_set_def keyed_by_begin_update)
    from IH ks d k False show ?thesis by auto
  qed
qed

lemma loop_step_None:
  assumes "loop_step rec st a vars L = None"
  shows "\<exists>c1 L1 gx pre post insd g2 body.
     select_exits (clg st) (graph_at st a) L vars = Inr (c1, L1, gx, pre, post) \<and>
     pop_insiders gx L1 [] = Inr (insd, g2) \<and>
     length (fst (find_headers_and_entries (graph_at st a) L)) = 1 \<and>
     loop_body_of (hd (fst (find_headers_and_entries (graph_at st a) L)))
       (fst (find_headers_and_entries (graph_at st a) L)) insd [] = Inr body \<and>
     rec (fst (alloc (set_graph (st\<lparr>clg := c1\<rparr>) a g2) body))
         (snd (alloc (set_graph (st\<lparr>clg := c1\<rparr>) a g2) body)) = None"
proof -
  let ?g = "graph_at st a"
  let ?hs = "fst (find_headers_and_entries ?g L)"
  obtain c1 L1 gx pre post where
    sel: "select_exits (clg st) ?g L vars = Inr (c1, L1, gx, pre, post)"
    using assms by (auto simp: loop_step_def Let_def split: sum.splits prod.splits)
  obtain insd g2 where pop: "pop_insiders gx L1 [] = Inr (insd, g2)"
    using assms sel by (auto simp: loop_step_def Let_def split: sum.splits prod.splits)
  have len: "length ?hs = 1"
    using assms sel pop by (auto simp: loop_step_def Let_def split: if_splits)
  obtain body where bd: "loop_body_of (hd ?hs) ?hs insd [] = Inr body"
    using assms sel pop len by (auto simp: loop_step_def Let_def split: sum.splits)
  obtain e where ne: "next_inst_offset (hd ?hs) = Inr e"
    using assms sel pop len bd by (auto simp: loop_step_def Let_def split: sum.splits)
  let ?al = "alloc (set_graph (st\<lparr>clg := c1\<rparr>) a g2) body"
  have r: "rec (fst ?al) (snd ?al) = None"
    using assms sel pop len bd ne
    by (auto simp: loop_step_def Let_def split: sum.splits prod.splits option.splits)
  with sel pop len bd show ?thesis by blast
qed

lemma length_graph: "distinct (dict_keys g) \<Longrightarrow> length g = card (set (dict_keys g))"
  by (simp add: distinct_card dict_keys_def [symmetric]) (simp add: dict_keys_def)

lemma loop_step_total:
  assumes ko: "keeps_others rec"
    and tot: "\<forall>s b. wf_at s b \<and> length (graph_at s b) < n \<longrightarrow> rec s b \<noteq> None"
    and wf: "wf_at st a" and sz: "length (graph_at st a) \<le> n"
  shows "loop_step rec st a vars L \<noteq> None"
proof
  assume "loop_step rec st a vars L = None"
  let ?g = "graph_at st a"
  let ?hs = "fst (find_headers_and_entries ?g L)"
  let ?h = "hd ?hs"
  from loop_step_None [OF \<open>loop_step rec st a vars L = None\<close>]
  obtain c1 L1 gx pre post insd g2 body where
    sel: "select_exits (clg st) ?g L vars = Inr (c1, L1, gx, pre, post)" and
    pop: "pop_insiders gx L1 [] = Inr (insd, g2)" and
    len: "length ?hs = 1" and
    bd: "loop_body_of ?h ?hs insd [] = Inr body" and
    r: "rec (fst (alloc (set_graph (st\<lparr>clg := c1\<rparr>) a g2) body))
         (snd (alloc (set_graph (st\<lparr>clg := c1\<rparr>) a g2) body)) = None"
    by blast
  from wf have al: "a < length (heap st)" and d: "distinct (dict_keys ?g)"
    and k: "keyed_by_begin ?g" and f: "fresh_labels (clg st) ?g"
    by (simp_all add: wf_at_def)
  note sub = select_exits_keys [OF sel]
  have "{} \<subseteq> set (dict_keys ?g)" "\<forall>u\<in>set L. set (targets_of ?g u) \<inter> {} = {}"
    "case vars of None \<Rightarrow> True | Some (p, q) \<Rightarrow> q \<notin> {}"
    by (auto split: option.splits)
  note F = select_exits_frame [OF sel d k f sub this]
  from F have dx: "distinct (dict_keys gx)" and kx: "keyed_by_begin gx"
    and fx: "fresh_labels c1 gx"
    and L1: "set L1 \<subseteq> insert (ControlLabel (clg st)) (set L)"
    by simp_all
  from pop_insiders_keys [OF pop] kx have L1k: "set L1 \<subseteq> set (dict_keys gx)"
    and ib: "bb_begin ` set insd \<subseteq> set L1" by auto
  from loop_body_of_frame [OF bd] have
    bk: "set (dict_keys body) \<subseteq> bb_begin ` set insd - set ?hs" and
    db: "distinct (dict_keys body)" and kb: "keyed_by_begin body"
    by (simp_all add: dict_keys_def keyed_by_begin_def)
  let ?m = "fst (alloc (set_graph (st\<lparr>clg := c1\<rparr>) a g2) body)"
  let ?b = "snd (alloc (set_graph (st\<lparr>clg := c1\<rparr>) a g2) body)"
  have b: "?b = length (heap st)" by (simp add: alloc_def set_graph_def)
  have hm: "heap ?m = (heap st)[a := g2] @ [body]" and cm: "clg ?m = c1"
    by (simp_all add: alloc_def set_graph_def)
  have gb: "graph_at ?m ?b = body" by (simp add: graph_at_def hm b nth_append)
  have fb: "fresh_labels c1 body"
    using fx bk ib L1k by (auto simp: fresh_labels_def)
  have wfm: "wf_at ?m ?b"
    unfolding wf_at_def gb using db kb fb by (simp add: hm b cm)
  have hs: "set ?hs \<subseteq> set L" by (auto simp: headers_set header_set_def)
  from len have hne: "?hs \<noteq> []" by auto
  then have hin: "?h \<in> set ?hs" by simp
  with hs have hL: "?h \<in> set L" by blast
  from len have "card (header_set ?g L) = 1" by (simp add: headers_length)
  then have "header_set ?g L \<noteq> {}" by auto
  then obtain x where x: "x \<in> set (dict_keys ?g)" "x \<notin> set L"
    by (auto simp: header_set_def)
  with sub have "set L \<subset> set (dict_keys ?g)" by auto
  then have cL: "card (set L) < card (set (dict_keys ?g))"
    by (simp add: psubset_card_mono)
  have "set (dict_keys body) \<subseteq> insert (ControlLabel (clg st)) (set L - {?h})"
    using bk ib L1 hin by auto
  then have "card (set (dict_keys body)) \<le> card (insert (ControlLabel (clg st)) (set L - {?h}))"
    by (simp add: card_mono)
  also have "\<dots> \<le> Suc (card (set L - {?h}))" by (simp add: card_insert_le_m1 card_insert_if)
  also have "\<dots> = card (set L)" using card_Suc_Diff1 [OF finite_set hL] by simp
  finally have "card (set (dict_keys body)) < card (set (dict_keys ?g))" using cL by simp
  then have "length body < length ?g" using d db by (simp add: length_graph)
  with sz gb have "length (graph_at ?m ?b) < n" by simp
  with tot wfm have "rec ?m ?b \<noteq> None" by blast
  with r show False by simp
qed

lemma loop_step_wf:
  assumes ls: "loop_step rec st a vars L = Some (Inr (st1, vars1))"
    and ko: "keeps_others rec" and wf: "wf_at st a" and big: "1 < length L"
  shows "wf_at st1 a \<and> length (graph_at st1 a) \<le> length (graph_at st a)"
proof -
  let ?g = "graph_at st a"
  let ?g1 = "graph_at st1 a"
  from wf have al: "a < length (heap st)" and d: "distinct (dict_keys ?g)"
    and k: "keyed_by_begin ?g" and f: "fresh_labels (clg st) ?g"
    by (simp_all add: wf_at_def)
  from loop_step_Inr [OF ls] obtain r where
    "select_exits (clg st) ?g L vars = Inr r" by blast
  note sub = select_exits_keys [OF this]
  have "{} \<subseteq> set (dict_keys ?g)" "\<forall>u\<in>set L. set (targets_of ?g u) \<inter> {} = {}"
    "case vars of None \<Rightarrow> True | Some (p, q) \<Rightarrow> q \<notin> {}"
    by (auto split: option.splits)
  note F = loop_step_frame [OF ls ko al d k f sub this]
  from F have w1: "wf_at st1 a" by (simp add: wf_at_def)
  from F have dL: "distinct L" by simp
  from F obtain h where
    ks: "set (dict_keys ?g1) \<subseteq>
      insert h (insert (ControlLabel (clg st + 1)) (set (dict_keys ?g) - set L))"
    by blast
  have "card (set (dict_keys ?g1)) \<le>
      card (insert h (insert (ControlLabel (clg st + 1)) (set (dict_keys ?g) - set L)))"
    using ks by (simp add: card_mono)
  also have "\<dots> \<le> Suc (Suc (card (set (dict_keys ?g) - set L)))"
    by (simp add: card_insert_if)
  also have "\<dots> = Suc (Suc (card (set (dict_keys ?g)) - card (set L)))"
    using sub by (simp add: card_Diff_subset)
  also have "\<dots> \<le> card (set (dict_keys ?g))"
  proof -
    have "card (set L) = length L" using dL by (simp add: distinct_card)
    moreover have "card (set L) \<le> card (set (dict_keys ?g))" using sub by (simp add: card_mono)
    ultimately show ?thesis using big by simp
  qed
  finally have "length ?g1 \<le> length ?g"
    using d w1 by (simp add: length_graph wf_at_def)
  with w1 show ?thesis by simp
qed

lemma for_loops_total:
  assumes ko: "keeps_others rec"
    and tot: "\<forall>s b. wf_at s b \<and> length (graph_at s b) < n \<longrightarrow> rec s b \<noteq> None"
  shows "wf_at st a \<Longrightarrow> length (graph_at st a) \<le> n \<Longrightarrow> \<forall>L\<in>set loops. 1 < length L \<Longrightarrow>
    for_loops rec st a vars loops \<noteq> None"
proof (induction loops arbitrary: st vars)
  case Nil
  then show ?case by simp
next
  case (Cons L rest)
  from loop_step_total [OF ko tot Cons.prems(1,2)]
  obtain r where r: "loop_step rec st a vars L = Some r" by blast
  show ?case
  proof (cases r)
    case (Inl e)
    with r show ?thesis by simp
  next
    case (Inr p)
    obtain st1 vars1 where p: "p = (st1, vars1)" by (cases p)
    from r Inr p have ls: "loop_step rec st a vars L = Some (Inr (st1, vars1))" by simp
    from Cons.prems(3) have big: "1 < length L" by simp
    from loop_step_wf [OF ls ko Cons.prems(1) big] Cons.prems(2)
    have w1: "wf_at st1 a" and s1: "length (graph_at st1 a) \<le> n" by simp_all
    from Cons.prems(3) have "\<forall>L\<in>set rest. 1 < length L" by simp
    from Cons.IH [OF w1 s1 this] ls show ?thesis by simp
  qed
qed

lemma restructure_loop_total:
  "wf_at st a \<Longrightarrow> length (graph_at st a) < n \<Longrightarrow> restructure_loop n sccf st a \<noteq> None"
proof (induction n arbitrary: st a)
  case 0
  then show ?case by simp
next
  case (Suc n)
  have tot: "\<forall>s b. wf_at s b \<and> length (graph_at s b) < n \<longrightarrow> restructure_loop n sccf s b \<noteq> None"
    using Suc.IH by blast
  have sz: "length (graph_at st a) \<le> n" using Suc.prems(2) by simp
  have big: "\<forall>L\<in>set (loops_of sccf (graph_at st a)). 1 < length L"
    by (simp add: loops_of_def)
  from for_loops_total [OF restructure_loop_keeps tot Suc.prems(1) sz big]
  show ?case by simp
qed

lemma for_loops_multi_header:
  assumes "length (fst (find_headers_and_entries (graph_at st a) L)) \<noteq> 1"
  shows "\<exists>e. for_loops rec st a vars (L # rest) = Some (Inl e)"
proof -
  have "\<exists>e. loop_step rec st a vars L = Some (Inl e)"
    using assms by (auto simp: loop_step_def Let_def split: sum.splits prod.splits)
  then obtain e where "loop_step rec st a vars L = Some (Inl e)" by blast
  then show ?thesis by simp
qed

lemma find_exits_loop_post_eq:
  "find_exits_loop g loop xs pre post = Inr (pre', post') \<Longrightarrow>
   set post' = set post \<union> (\<Union>u\<in>set xs. set (targets_of g u) - set loop)"
proof (induction xs arbitrary: pre post)
  case Nil
  then show ?case by simp
next
  case (Cons x xs)
  from Cons.prems obtain blk where blk: "map_of g x = Some blk"
    by (auto split: option.splits)
  let ?outs = "[jt \<leftarrow> jump_targets (base blk). jt \<notin> set loop]"
  from Cons.prems blk obtain pre2 where
    "find_exits_loop g loop xs pre2 (foldl set_add post ?outs) = Inr (pre', post')"
    by (auto simp: Let_def)
  from Cons.IH [OF this] have "set post' = set (foldl set_add post ?outs) \<union>
      (\<Union>u\<in>set xs. set (targets_of g u) - set loop)" .
  moreover have "set ?outs = set (targets_of g x) - set loop"
    by (auto simp: targets_of_def blk)
  ultimately show ?case by (auto simp: set_foldl_set_add)
qed

lemma find_exits_post_eq:
  "find_exits L g = Inr (pre, post) \<Longrightarrow>
   set post = (\<Union>u\<in>set L. set (targets_of g u)) - set L"
  using find_exits_loop_post_eq [of g L L "[]" "[]" pre post] by (auto simp: find_exits_def)

lemma find_exits_loop_cong:
  "\<forall>n\<in>set xs. map_of g1 n = map_of g n \<Longrightarrow>
   find_exits_loop g1 loop xs pre post = find_exits_loop g loop xs pre post"
  by (induction xs arbitrary: pre post) (auto simp: Let_def split: option.splits)

lemma unraised_case_cong:
  "\<forall>n\<in>set M. map_of g1 n = map_of g n \<Longrightarrow> unraised_case g1 M = unraised_case g M"
  using find_exits_loop_cong [of M g1 g M "[]" "[]"]
  by (simp add: unraised_case_def find_exits_def)

lemma select_exits_raised:
  assumes "select_exits c g L vars = Inr (c1, L1, gx, pre, post)"
    and "\<not> unraised_case g L"
  shows "\<exists>pre_exits post_exits. find_exits L g = Inr (pre_exits, post_exits) \<and>
      ((length post_exits \<noteq> 1 \<and> join_exits c L g post_exits = Inr (c1, L1, gx, pre, post)) \<or>
       (c1 = c \<and> L1 = L \<and> gx = g \<and> post_exits = [post]))"
proof -
  from assms(1) obtain pre_exits post_exits where
    fe: "find_exits L g = Inr (pre_exits, post_exits)"
    by (auto simp: select_exits_def split: sum.splits prod.splits)
  show ?thesis
  proof (cases "length post_exits = 1")
    case False
    with assms(1) fe show ?thesis by (simp add: select_exits_def)
  next
    case True
    with assms(2) fe have p: "length pre_exits = 1" by (simp add: unraised_case_def)
    from True obtain x where x: "post_exits = [x]" by (cases post_exits) auto
    with assms(1) fe p show ?thesis by (simp add: select_exits_def)
  qed
qed

lemma select_exits_edges:
  assumes sel: "select_exits c g L vars = Inr (c1, L1, gx, pre, post)"
    and d: "distinct (dict_keys g)" and k: "keyed_by_begin g"
    and f: "fresh_labels c g" and sub: "set L \<subseteq> set (dict_keys g)"
    and S: "S \<subseteq> set (dict_keys g)" and dj: "set L \<inter> S = {}"
    and nu: "\<not> unraised_case g L"
  shows "(\<forall>n\<in>set (dict_keys gx). n \<notin> set L1 \<longrightarrow>
            (n \<in> set (dict_keys g) \<and> n \<notin> set L) \<or>
            (n \<notin> S \<and> set (targets_of gx n) \<inter> S \<subseteq> (\<Union>u\<in>set L. set (targets_of g u)))) \<and>
         (post \<in> S \<longrightarrow> post \<in> (\<Union>u\<in>set L. set (targets_of g u))) \<and>
         (\<forall>u\<in>set L. \<forall>t\<in>set (targets_of g u) \<inter> S. t = post \<or>
            (\<exists>n\<in>set (dict_keys gx). n \<notin> set L1 \<and> n \<notin> S \<and> t \<in> set (targets_of gx n)))"
proof -
  from select_exits_raised [OF sel nu] obtain pre_exits post_exits where
    fe: "find_exits L g = Inr (pre_exits, post_exits)" and
    cases: "(length post_exits \<noteq> 1 \<and> join_exits c L g post_exits = Inr (c1, L1, gx, pre, post)) \<or>
       (c1 = c \<and> L1 = L \<and> gx = g \<and> post_exits = [post])"
    by blast
  note pe = find_exits_post_eq [OF fe]
  from cases show ?thesis
  proof
    assume "length post_exits \<noteq> 1 \<and> join_exits c L g post_exits = Inr (c1, L1, gx, pre, post)"
    then have je: "join_exits c L g post_exits = Inr (c1, L1, gx, pre, post)" by simp
    note J = join_exits_frame [OF je d k f sub]
    from J have L1: "L1 = set_add L (ControlLabel c)"
      and pre: "pre = ControlLabel c" and post: "post = ControlLabel (c + 1)"
      and keys: "set (dict_keys gx) = insert pre (insert post (set (dict_keys g)))"
      by simp_all
    from J obtain blk where pb: "map_of gx post = Some blk"
      and pt: "jump_targets (base blk) = post_exits" by blast
    have tp: "targets_of gx post = post_exits" by (simp add: targets_of_def pb pt)
    have sL1: "set L1 = insert (ControlLabel c) (set L)"
      by (auto simp: L1 set_add_def)
    have npre: "ControlLabel c \<notin> set (dict_keys g)" and npost: "ControlLabel (c + 1) \<notin> set (dict_keys g)"
      using f by (simp_all add: fresh_labels_def)
    have pS: "post \<notin> S" using S npost post by auto
    have pL1: "post \<notin> set L1" using npost sub by (auto simp: sL1 post)
    have a: "\<forall>n\<in>set (dict_keys gx). n \<notin> set L1 \<longrightarrow>
            (n \<in> set (dict_keys g) \<and> n \<notin> set L) \<or>
            (n \<notin> S \<and> set (targets_of gx n) \<inter> S \<subseteq> (\<Union>u\<in>set L. set (targets_of g u)))"
    proof (intro ballI impI)
      fix n assume n: "n \<in> set (dict_keys gx)" and nl: "n \<notin> set L1"
      from n keys have "n = pre \<or> n = post \<or> n \<in> set (dict_keys g)" by auto
      with nl sL1 pre have "n = post \<or> (n \<in> set (dict_keys g) \<and> n \<notin> set L)" by auto
      then show "(n \<in> set (dict_keys g) \<and> n \<notin> set L) \<or>
            (n \<notin> S \<and> set (targets_of gx n) \<inter> S \<subseteq> (\<Union>u\<in>set L. set (targets_of g u)))"
      proof
        assume np: "n = post"
        have "set post_exits \<subseteq> (\<Union>u\<in>set L. set (targets_of g u))" using pe by auto
        with np tp pS show ?thesis by auto
      qed simp
    qed
    have c: "\<forall>u\<in>set L. \<forall>t\<in>set (targets_of g u) \<inter> S. t = post \<or>
            (\<exists>n\<in>set (dict_keys gx). n \<notin> set L1 \<and> n \<notin> S \<and> t \<in> set (targets_of gx n))"
    proof (intro ballI)
      fix u t assume u: "u \<in> set L" and t: "t \<in> set (targets_of g u) \<inter> S"
      with dj have "t \<notin> set L" by auto
      with u t pe have "t \<in> set post_exits" by auto
      then have "t \<in> set (targets_of gx post)" by (simp add: tp)
      moreover have "post \<in> set (dict_keys gx)" by (simp add: keys)
      ultimately show "t = post \<or>
            (\<exists>n\<in>set (dict_keys gx). n \<notin> set L1 \<and> n \<notin> S \<and> t \<in> set (targets_of gx n))"
        using pL1 pS by blast
    qed
    from a pS c show ?thesis by blast
  next
    assume N: "c1 = c \<and> L1 = L \<and> gx = g \<and> post_exits = [post]"
    then have p1: "set post_exits = {post}" by simp
    have b: "post \<in> (\<Union>u\<in>set L. set (targets_of g u))" using pe p1 by auto
    have c: "\<forall>u\<in>set L. \<forall>t\<in>set (targets_of g u) \<inter> S. t = post"
    proof (intro ballI)
      fix u t assume u: "u \<in> set L" and t: "t \<in> set (targets_of g u) \<inter> S"
      with dj have "t \<notin> set L" by auto
      with u t pe have "t \<in> set post_exits" by auto
      with p1 show "t = post" by simp
    qed
    from N b c show ?thesis by auto
  qed
qed

lemma loop_step_graph:
  assumes ls: "loop_step rec st a vars L = Some (Inr (st1, vars1))"
    and ko: "keeps_others rec"
    and al: "a < length (heap st)"
  shows "\<exists>c1 L1 gx pre post insd g2 blk.
     select_exits (clg st) (graph_at st a) L vars = Inr (c1, L1, gx, pre, post) \<and>
     pop_insiders gx L1 [] = Inr (insd, g2) \<and>
     length (fst (find_headers_and_entries (graph_at st a) L)) = 1 \<and>
     map_of (graph_at st1 a) =
       (map_of g2)(hd (fst (find_headers_and_entries (graph_at st a) L)) \<mapsto> blk) \<and>
     jump_targets (base blk) = [post]"
proof -
  let ?g = "graph_at st a"
  let ?hs = "fst (find_headers_and_entries ?g L)"
  let ?h = "hd ?hs"
  from loop_step_Inr [OF ls] obtain c1 L1 gx pre post insd g2 body st2 blk where
    sel: "select_exits (clg st) ?g L vars = Inr (c1, L1, gx, pre, post)" and
    pop: "pop_insiders gx L1 [] = Inr (insd, g2)" and
    len: "length ?hs = 1" and
    r: "rec (fst (alloc (set_graph (st\<lparr>clg := c1\<rparr>) a g2) body))
         (snd (alloc (set_graph (st\<lparr>clg := c1\<rparr>) a g2) body)) = Some (Inr st2)" and
    s1: "st1 = set_graph st2 a (dict_set (graph_at st2 a) ?h blk)" and
    jt: "jump_targets (base blk) = [post]"
    by blast
  let ?m = "fst (alloc (set_graph (st\<lparr>clg := c1\<rparr>) a g2) body)"
  let ?b = "snd (alloc (set_graph (st\<lparr>clg := c1\<rparr>) a g2) body)"
  have b: "?b = length (heap st)" by (simp add: alloc_def set_graph_def)
  have hm: "heap ?m = (heap st)[a := g2] @ [body]"
    by (simp add: alloc_def set_graph_def)
  from ko r have K: "length (heap ?m) \<le> length (heap st2)"
    "\<forall>x<length (heap ?m). x \<noteq> ?b \<longrightarrow> heap st2 ! x = heap ?m ! x"
    unfolding keeps_others_def by blast+
  have a2: "a < length (heap st2)" using K(1) hm al by simp
  have "heap st2 ! a = heap ?m ! a" using K(2) al b hm by simp
  also have "\<dots> = g2" using al by (simp add: hm nth_append)
  finally have h2: "heap st2 ! a = g2" .
  have g2: "graph_at st2 a = g2" using a2 h2 by (simp add: graph_at_def)
  have a1: "a < length (heap st1)" using a2 by (simp add: s1 set_graph_def)
  have "heap st1 ! a = dict_set g2 ?h blk"
    using a2 by (simp add: s1 set_graph_def g2)
  then have g1: "graph_at st1 a = dict_set g2 ?h blk"
    using a1 by (simp add: graph_at_def)
  have m1: "map_of (graph_at st1 a) = (map_of g2)(?h \<mapsto> blk)"
    by (simp add: g1 dict_set_def update_conv')
  from sel pop len m1 jt show ?thesis by blast
qed

lemma loop_step_edges:
  assumes ls: "loop_step rec st a vars L = Some (Inr (st1, vars1))"
    and ko: "keeps_others rec"
    and wf: "wf_at st a"
    and S: "S \<subseteq> set (dict_keys (graph_at st a))" and dj: "set L \<inter> S = {}"
    and nu: "\<not> unraised_case (graph_at st a) L"
  shows "(\<forall>n\<in>S. map_of (graph_at st1 a) n = map_of (graph_at st a) n) \<and>
         (\<forall>M. set M \<subseteq> S \<longrightarrow> header_set (graph_at st1 a) M = header_set (graph_at st a) M)"
proof -
  let ?g = "graph_at st a"
  let ?g1 = "graph_at st1 a"
  let ?hs = "fst (find_headers_and_entries ?g L)"
  let ?h = "hd ?hs"
  from wf have al: "a < length (heap st)" and d: "distinct (dict_keys ?g)"
    and k: "keyed_by_begin ?g" and f: "fresh_labels (clg st) ?g"
    by (simp_all add: wf_at_def)
  from loop_step_graph [OF ls ko al] obtain c1 L1 gx pre post insd g2 blk where
    sel: "select_exits (clg st) ?g L vars = Inr (c1, L1, gx, pre, post)" and
    pop: "pop_insiders gx L1 [] = Inr (insd, g2)" and
    len: "length ?hs = 1" and
    m1: "map_of ?g1 = (map_of g2)(?h \<mapsto> blk)" and
    jt: "jump_targets (base blk) = [post]"
    by blast
  note sub = select_exits_keys [OF sel]
  have "{} \<subseteq> set (dict_keys ?g)" "\<forall>u\<in>set L. set (targets_of ?g u) \<inter> {} = {}"
    "case vars of None \<Rightarrow> True | Some (p, q) \<Rightarrow> q \<notin> {}"
    by (auto split: option.splits)
  note F = select_exits_frame [OF sel d k f sub this]
  from F have LL: "set L \<subseteq> set L1"
    and same: "\<forall>n\<in>set (dict_keys ?g). n \<notin> set L \<longrightarrow> n \<notin> set L1 \<and> map_of gx n = map_of ?g n"
    by simp_all
  note E = select_exits_edges [OF sel d k f sub S dj nu]
  from E have Ea: "\<forall>n\<in>set (dict_keys gx). n \<notin> set L1 \<longrightarrow>
            (n \<in> set (dict_keys ?g) \<and> n \<notin> set L) \<or>
            (n \<notin> S \<and> set (targets_of gx n) \<inter> S \<subseteq> (\<Union>u\<in>set L. set (targets_of ?g u)))"
    and Eb: "post \<in> S \<longrightarrow> post \<in> (\<Union>u\<in>set L. set (targets_of ?g u))"
    and Ec: "\<forall>u\<in>set L. \<forall>t\<in>set (targets_of ?g u) \<inter> S. t = post \<or>
            (\<exists>n\<in>set (dict_keys gx). n \<notin> set L1 \<and> n \<notin> S \<and> t \<in> set (targets_of gx n))"
    by simp_all
  from pop_insiders_frame [OF pop]
  have m2: "map_of g2 = (\<lambda>n. if n \<in> set L1 then None else map_of gx n)" by simp
  have hs: "set ?hs \<subseteq> set L" by (auto simp: headers_set header_set_def)
  from len have "?hs \<noteq> []" by auto
  then have "?h \<in> set ?hs" by simp
  with hs have hL: "?h \<in> set L" by blast
  have keys1: "set (dict_keys ?g1) = insert ?h (set (dict_keys gx) - set L1)"
    by (auto simp: in_keys_iff m1 m2 split: if_splits)
  have th: "targets_of ?g1 ?h = [post]" by (simp add: targets_of_def m1 jt)
  have tn: "targets_of ?g1 n = targets_of gx n" if "n \<noteq> ?h" "n \<notin> set L1" for n
    using that by (simp add: targets_of_def m1 m2)
  have Same: "map_of ?g1 n = map_of ?g n" if "n \<in> set (dict_keys ?g)" "n \<notin> set L" for n
  proof -
    from same that have n1: "n \<notin> set L1" and e: "map_of gx n = map_of ?g n" by simp_all
    from that hL have "n \<noteq> ?h" by auto
    then show ?thesis by (simp add: m1 m2 n1 e)
  qed
  have A: "\<forall>n\<in>S. map_of ?g1 n = map_of ?g n"
    using Same S dj by blast
  have B: "header_set ?g1 M = header_set ?g M" if M: "set M \<subseteq> S" for M
  proof (rule set_eqI)
    fix t
    have fromL: "t \<in> header_set ?g M"
      if t: "t \<in> set M" and u: "t \<in> (\<Union>u\<in>set L. set (targets_of ?g u))" for t
    proof -
      from u obtain u where uL: "u \<in> set L" and tu: "t \<in> set (targets_of ?g u)" by blast
      from uL dj M have "u \<notin> set M" by blast
      moreover from uL sub have "u \<in> set (dict_keys ?g)" by blast
      ultimately show ?thesis using t tu by (auto simp: header_set_def)
    qed
    show "t \<in> header_set ?g1 M \<longleftrightarrow> t \<in> header_set ?g M"
    proof
      assume "t \<in> header_set ?g1 M"
      then obtain n where t: "t \<in> set M" and n: "n \<in> set (dict_keys ?g1)" "n \<notin> set M"
        and e: "t \<in> set (targets_of ?g1 n)" by (auto simp: header_set_def)
      show "t \<in> header_set ?g M"
      proof (cases "n = ?h")
        case True
        with e th have "t = post" by simp
        with t M Eb have "t \<in> (\<Union>u\<in>set L. set (targets_of ?g u))" by blast
        from fromL [OF t this] show ?thesis .
      next
        case False
        with n keys1 have nx: "n \<in> set (dict_keys gx)" and n1: "n \<notin> set L1" by auto
        from tn [OF False n1] e have ex: "t \<in> set (targets_of gx n)" by simp
        from Ea nx n1 have "(n \<in> set (dict_keys ?g) \<and> n \<notin> set L) \<or>
            (n \<notin> S \<and> set (targets_of gx n) \<inter> S \<subseteq> (\<Union>u\<in>set L. set (targets_of ?g u)))"
          by blast
        then show ?thesis
        proof
          assume o: "n \<in> set (dict_keys ?g) \<and> n \<notin> set L"
          with same have "map_of gx n = map_of ?g n" by blast
          then have "targets_of gx n = targets_of ?g n" by (simp add: targets_of_def)
          with ex o t n show ?thesis by (auto simp: header_set_def)
        next
          assume "n \<notin> S \<and> set (targets_of gx n) \<inter> S \<subseteq> (\<Union>u\<in>set L. set (targets_of ?g u))"
          with ex t M have "t \<in> (\<Union>u\<in>set L. set (targets_of ?g u))" by blast
          from fromL [OF t this] show ?thesis .
        qed
      qed
    next
      assume "t \<in> header_set ?g M"
      then obtain n where t: "t \<in> set M" and n: "n \<in> set (dict_keys ?g)" "n \<notin> set M"
        and e: "t \<in> set (targets_of ?g n)" by (auto simp: header_set_def)
      have hM: "?h \<notin> set M" using hL dj M by blast
      have hk: "?h \<in> set (dict_keys ?g1)" by (simp add: keys1)
      show "t \<in> header_set ?g1 M"
      proof (cases "n \<in> set L")
        case True
        from t M have tS: "t \<in> S" by blast
        with Ec True e have "t = post \<or>
            (\<exists>n\<in>set (dict_keys gx). n \<notin> set L1 \<and> n \<notin> S \<and> t \<in> set (targets_of gx n))"
          by blast
        then show ?thesis
        proof
          assume "t = post"
          with th have "t \<in> set (targets_of ?g1 ?h)" by simp
          with t hM hk show ?thesis by (auto simp: header_set_def)
        next
          assume "\<exists>n\<in>set (dict_keys gx). n \<notin> set L1 \<and> n \<notin> S \<and> t \<in> set (targets_of gx n)"
          then obtain x where x: "x \<in> set (dict_keys gx)" "x \<notin> set L1" "x \<notin> S"
            and tx: "t \<in> set (targets_of gx x)" by blast
          from x(2) hL LL have xh: "x \<noteq> ?h" by blast
          from tn [OF xh x(2)] tx have "t \<in> set (targets_of ?g1 x)" by simp
          moreover from x have "x \<in> set (dict_keys ?g1)" by (simp add: keys1)
          moreover from x(3) M have "x \<notin> set M" by blast
          ultimately show ?thesis using t by (auto simp: header_set_def)
        qed
      next
        case False
        from Same [OF n(1) False] have m: "map_of ?g1 n = map_of ?g n" .
        then have "targets_of ?g1 n = targets_of ?g n" by (simp add: targets_of_def)
        moreover from m n have "n \<in> set (dict_keys ?g1)" by (simp add: in_keys_iff)
        ultimately show ?thesis using t n e by (auto simp: header_set_def)
      qed
    qed
  qed
  from A B show ?thesis by blast
qed

lemma listed_disjoint_keys:
  "listed_disjoint g loops \<Longrightarrow> M \<in> set loops \<Longrightarrow> set M \<subseteq> set (dict_keys g)"
  by (induction loops) auto

lemma listed_disjoint_frame:
  "listed_disjoint g loops \<Longrightarrow>
   (\<forall>M\<in>set loops. \<forall>n\<in>set M. map_of g1 n = map_of g n) \<Longrightarrow>
   listed_disjoint g1 loops"
proof (induction loops)
  case Nil
  then show ?case by simp
next
  case (Cons L rest)
  have same: "\<forall>n\<in>set L. map_of g1 n = map_of g n" using Cons.prems(2) by simp
  have k: "set L \<subseteq> set (dict_keys g1)"
  proof
    fix n assume n: "n \<in> set L"
    with Cons.prems(1) have "n \<in> set (dict_keys g)" by auto
    with same n show "n \<in> set (dict_keys g1)" by (simp add: in_keys_iff)
  qed
  have "listed_disjoint g1 rest" using Cons by simp
  with k Cons.prems(1) show ?case by simp
qed

lemma for_loops_raised_not_Inr:
  assumes ko: "keeps_others rec"
  shows "wf_at st a \<Longrightarrow> listed_disjoint (graph_at st a) loops \<Longrightarrow>
    \<forall>M\<in>set loops. 1 < length M \<and> \<not> unraised_case (graph_at st a) M \<Longrightarrow>
    L \<in> set loops \<Longrightarrow>
    length (fst (find_headers_and_entries (graph_at st a) L)) \<noteq> 1 \<Longrightarrow>
    for_loops rec st a vars loops \<noteq> Some (Inr st')"
proof (induction loops arbitrary: st vars)
  case Nil
  then show ?case by simp
next
  case (Cons L0 rest)
  let ?g = "graph_at st a"
  let ?S = "\<Union>(set ` set rest)"
  show ?case
  proof
    assume fl: "for_loops rec st a vars (L0 # rest) = Some (Inr st')"
    then obtain st1 vars1 where
      ls: "loop_step rec st a vars L0 = Some (Inr (st1, vars1))" and
      fl1: "for_loops rec st1 a vars1 rest = Some (Inr st')"
      by (auto split: option.splits sum.splits prod.splits)
    from loop_step_Inr [OF ls] have one: "length (fst (find_headers_and_entries ?g L0)) = 1"
      by blast
    with Cons.prems(4,5) have Lr: "L \<in> set rest" by auto
    from Cons.prems(2) have ld: "listed_disjoint ?g rest"
      and dj0: "\<forall>M\<in>set rest. set L0 \<inter> set M = {}"
      by simp_all
    have S: "?S \<subseteq> set (dict_keys ?g)" using listed_disjoint_keys [OF ld] by auto
    have dj: "set L0 \<inter> ?S = {}" using dj0 by auto
    from Cons.prems(3) have big: "1 < length L0" and nu: "\<not> unraised_case ?g L0" by simp_all
    let ?g1 = "graph_at st1 a"
    from loop_step_wf [OF ls ko Cons.prems(1) big] have w1: "wf_at st1 a" by simp
    note E = loop_step_edges [OF ls ko Cons.prems(1) S dj nu]
    from E have same: "\<forall>n\<in>?S. map_of ?g1 n = map_of ?g n"
      and hd: "\<forall>M. set M \<subseteq> ?S \<longrightarrow> header_set ?g1 M = header_set ?g M"
      by simp_all
    have sameM: "\<forall>M\<in>set rest. \<forall>n\<in>set M. map_of ?g1 n = map_of ?g n"
      using same by auto
    from listed_disjoint_frame [OF ld sameM] have ld1: "listed_disjoint ?g1 rest" .
    have nu1: "\<forall>M\<in>set rest. 1 < length M \<and> \<not> unraised_case ?g1 M"
    proof
      fix M assume M: "M \<in> set rest"
      with sameM have "\<forall>n\<in>set M. map_of ?g1 n = map_of ?g n" by blast
      from unraised_case_cong [OF this] Cons.prems(3) M
      show "1 < length M \<and> \<not> unraised_case ?g1 M" by simp
    qed
    have "set L \<subseteq> ?S" using Lr by auto
    with hd have "header_set ?g1 L = header_set ?g L" by blast
    with Cons.prems(5) have bad1: "length (fst (find_headers_and_entries ?g1 L)) \<noteq> 1"
      by (simp add: headers_length)
    from Cons.IH [OF w1 ld1 nu1 Lr bad1] fl1 show False by simp
  qed
qed

text \<open>
  The assertion on the headers, for every well-formed block map and every library function
  \<open>sccf\<close>: a loop with a number of headers other than one, wherever it stands in the list
  of loops, makes \<open>restructure_loop\<close> raise an exception, for every bound of the recursion
  above the number of blocks. This holds when the library lists a component before the
  components that can reach it, and it holds in every order of the list when no loop of
  the list takes the branch that builds an exception and does not raise it.
\<close>

lemma multi_header_loop_fails_downstream_first:
  assumes "wf_at st a"
    and "listed_downstream_first (graph_at st a) (loops_of sccf (graph_at st a))"
    and "L \<in> set (loops_of sccf (graph_at st a))"
    and "length (fst (find_headers_and_entries (graph_at st a) L)) \<noteq> 1"
    and "length (graph_at st a) < n"
  shows "\<exists>e. restructure_loop n sccf st a = Some (Inl e)"
proof -
  obtain m where n: "n = Suc m" using assms(5) by (cases n) auto
  from assms(1) have al: "a < length (heap st)" and d: "distinct (dict_keys (graph_at st a))"
    and k: "keyed_by_begin (graph_at st a)" and f: "fresh_labels (clg st) (graph_at st a)"
    by (simp_all add: wf_at_def)
  have "case None of None \<Rightarrow> True
        | Some (p, q) \<Rightarrow> q \<notin> \<Union>(set ` set (loops_of sccf (graph_at st a)))"
    by simp
  from for_loops_not_Inr [OF restructure_loop_keeps al d k f assms(2) this assms(3,4)]
  have ni: "restructure_loop n sccf st a \<noteq> Some (Inr st')" for st'
    by (simp add: n)
  from restructure_loop_total [OF assms(1,5)]
  obtain r where r: "restructure_loop n sccf st a = Some r" by blast
  with ni show ?thesis by (cases r) auto
qed

lemma multi_header_loop_fails_raised:
  assumes "wf_at st a"
    and "listed_disjoint (graph_at st a) (loops_of sccf (graph_at st a))"
    and "\<forall>M\<in>set (loops_of sccf (graph_at st a)). \<not> unraised_case (graph_at st a) M"
    and "L \<in> set (loops_of sccf (graph_at st a))"
    and "length (fst (find_headers_and_entries (graph_at st a) L)) \<noteq> 1"
    and "length (graph_at st a) < n"
  shows "\<exists>e. restructure_loop n sccf st a = Some (Inl e)"
proof -
  obtain m where n: "n = Suc m" using assms(6) by (cases n) auto
  have "\<forall>M\<in>set (loops_of sccf (graph_at st a)).
      1 < length M \<and> \<not> unraised_case (graph_at st a) M"
    using assms(3) by (simp add: loops_of_def)
  from for_loops_raised_not_Inr [OF restructure_loop_keeps assms(1,2) this assms(4,5)]
  have ni: "restructure_loop n sccf st a \<noteq> Some (Inr st')" for st'
    by (simp add: n)
  from restructure_loop_total [OF assms(1,6)]
  obtain r where r: "restructure_loop n sccf st a = Some r" by blast
  with ni show ?thesis by (cases r) auto
qed

text \<open>
  Both statements on the block map of \<open>loop_then_two_entry\<close>, whose loop at offsets 2 and
  4 has two headers: listed last to first, the loop at offsets 6 and 8 becomes a region
  and the assertion on the headers stops the pass at the second loop.
\<close>

lemma loop_then_two_entry_fails:
  "initial_graph loop_then_two_entry = Inr loop_then_two_entry_graph \<and>
   loops_of scc_rev loop_then_two_entry_graph =
     [[BCLabel 6, BCLabel 8], [BCLabel 2, BCLabel 4]] \<and>
   length (fst (find_headers_and_entries loop_then_two_entry_graph [BCLabel 2, BCLabel 4])) = 2 \<and>
   map_option (map_sum id (\<lambda>(st, vars). (kinds_at st 0, vars)))
     (loop_step (restructure_loop 6 scc_rev) \<lparr>clg = 0, heap = [loop_then_two_entry_graph]\<rparr> 0
        None [BCLabel 6, BCLabel 8]) =
     Some (Inr ([(BCLabel 0, ''basic''), (BCLabel 2, ''basic''), (BCLabel 4, ''basic''),
                 (BCLabel 10, ''basic''), (BCLabel 6, ''loop'')],
                Some (BCLabel 6, BCLabel 10))) \<and>
   restructure_loop 7 scc_rev \<lparr>clg = 0, heap = [loop_then_two_entry_graph]\<rparr> 0 =
     Some (Inl AssertionError)"
proof -
  let ?g = "loop_then_two_entry_graph"
  let ?st = "\<lparr>clg = 0, heap = [?g]\<rparr>"
  have g: "graph_at ?st 0 = ?g" by (simp add: graph_at_def)
  have i: "initial_graph loop_then_two_entry = Inr ?g" by code_simp
  have l: "loops_of scc_rev ?g = [[BCLabel 6, BCLabel 8], [BCLabel 2, BCLabel 4]]"
    by code_simp
  have h: "length (fst (find_headers_and_entries ?g [BCLabel 2, BCLabel 4])) = 2" by code_simp
  have s: "map_option (map_sum id (\<lambda>(st, vars). (kinds_at st 0, vars)))
     (loop_step (restructure_loop 6 scc_rev) ?st 0 None [BCLabel 6, BCLabel 8]) =
     Some (Inr ([(BCLabel 0, ''basic''), (BCLabel 2, ''basic''), (BCLabel 4, ''basic''),
                 (BCLabel 10, ''basic''), (BCLabel 6, ''loop'')],
                Some (BCLabel 6, BCLabel 10)))" by code_simp
  have ks: "dict_keys ?g =
      [BCLabel 0, BCLabel 2, BCLabel 4, BCLabel 6, BCLabel 8, BCLabel 10]" by code_simp
  have kb: "keyed_by_begin ?g" by code_simp
  have w: "wf_at ?st 0"
    by (simp add: wf_at_def g ks kb fresh_labels_def)
  have o: "listed_downstream_first (graph_at ?st 0) (loops_of scc_rev (graph_at ?st 0))"
    unfolding g l by code_simp
  have dj: "listed_disjoint (graph_at ?st 0) (loops_of scc_rev (graph_at ?st 0))"
    unfolding g l by code_simp
  have u1: "\<not> unraised_case ?g [BCLabel 6, BCLabel 8]" by code_simp
  have u2: "\<not> unraised_case ?g [BCLabel 2, BCLabel 4]" by code_simp
  have nu: "\<forall>M\<in>set (loops_of scc_rev (graph_at ?st 0)). \<not> unraised_case (graph_at ?st 0) M"
    using u1 u2 by (simp add: g l)
  have m: "[BCLabel 2, BCLabel 4] \<in> set (loops_of scc_rev (graph_at ?st 0))"
    by (simp add: g l)
  have b: "length (fst (find_headers_and_entries (graph_at ?st 0) [BCLabel 2, BCLabel 4])) \<noteq> 1"
    by (simp add: g h)
  have "length ?g = 6" by (simp add: loop_then_two_entry_graph_def)
  then have n: "length (graph_at ?st 0) < 7" by (simp only: g)
  from multi_header_loop_fails_downstream_first [OF w o m b n]
  obtain e where e: "restructure_loop 7 scc_rev ?st 0 = Some (Inl e)" by blast
  from multi_header_loop_fails_raised [OF w dj nu m b n]
  obtain e' where "restructure_loop 7 scc_rev ?st 0 = Some (Inl e')" by blast
  have r: "restructure_loop 7 scc_rev ?st 0 = Some (Inl AssertionError)" by code_simp
  from i l h s r show ?thesis by simp
qed

section \<open>Theorems\<close>

text \<open>
  C10. \<open>replace_backedge\<close>: when \<open>h\<close> is not a jump target the block comes back unchanged.
  When it is, the call succeeds exactly when \<open>h\<close> is the only jump target and there is no
  backedge yet, and fails an assertion otherwise; on success every field is kept but
  \<open>jump_targets\<close>, now empty, and \<open>backedges\<close>, now \<open>(h,)\<close>. So a block that jumps to \<open>h\<close>
  and to another label is never converted.
\<close>

theorem replace_backedge_spec:
  "(h \<notin> set (jump_targets (base b)) \<longrightarrow> replace_backedge b h = Inr b) \<and>
   (h \<in> set (jump_targets (base b)) \<longrightarrow>
      (if length (jump_targets (base b)) = 1 \<and> backedges (base b) = []
       then replace_backedge b h =
              Inr (with_base b ((base b)\<lparr>jump_targets := [], backedges := [h]\<rparr>))
       else replace_backedge b h = Inl AssertionError)) \<and>
   (h \<in> set (jump_targets (base b)) \<and> t \<in> set (jump_targets (base b)) \<and> t \<noteq> h \<longrightarrow>
      replace_backedge b h = Inl AssertionError)"
proof -
  have two: "length xs \<noteq> 1" if "h \<in> set xs" "t \<in> set xs" "t \<noteq> h" for xs :: "label list"
  proof
    assume "length xs = 1"
    then obtain x where "xs = [x]" by (cases xs) auto
    with that show False by auto
  qed
  show ?thesis
    by (auto simp: replace_backedge_def dest: two)
qed

theorem replace_backedge_spec_witness:
  "replace_backedge blk_a (BCLabel 0) = Inr blk_a \<and>
   replace_backedge blk_a (BCLabel 4) =
     Inr (BasicBlock \<lparr>bb_begin = BCLabel 14, bb_end = BCLabel 18, fallthrough = False,
       jump_targets = [], backedges = [BCLabel 4]\<rparr>) \<and>
   replace_backedge blk_b (BCLabel 12) = Inl AssertionError"
  using replace_backedge_spec [of "BCLabel 0" blk_a "BCLabel 0"]
        replace_backedge_spec [of "BCLabel 4" blk_a "BCLabel 4"]
        replace_backedge_spec [of "BCLabel 12" blk_b "BCLabel 8"]
  by (simp add: blk_a_def blk_b_def mk_bb_def)

text \<open>
  C8. \<open>join_returns\<close> is idempotent: on a dictionary (distinct keys) the call returns, and
  a second call right after it changes neither the map nor the counter.
\<close>

theorem join_returns_idempotent:
  assumes "distinct (dict_keys g)"
  shows "\<exists>c' g'. join_returns c g = Inr (c', g') \<and> join_returns c' g' = Inr (c', g')"
proof -
  obtain c' g' where r: "join_returns c g = Inr (c', g')" "distinct (dict_keys g')"
    "length (return_nodes g) \<le> 1 \<longrightarrow> c' = c \<and> g' = g"
    "length (return_nodes g) > 1 \<longrightarrow> terminating g' \<subseteq> {ControlLabel c}"
    using join_returns_total [OF assms, of c] by blast
  have "length (return_nodes g') \<le> 1"
  proof (cases "length (return_nodes g) > 1")
    case False
    with r show ?thesis by simp
  next
    case True
    with r have "set (return_nodes g') \<subseteq> {ControlLabel c}"
      by (simp add: set_return_nodes)
    moreover have "distinct (return_nodes g')"
      using r by (simp add: distinct_return_nodes)
    ultimately have "card (set (return_nodes g')) \<le> 1"
      by (metis card_mono finite.emptyI finite.insertI card_insert_if card.empty One_nat_def empty_iff)
    then show ?thesis
      using \<open>distinct (return_nodes g')\<close> by (simp add: distinct_card)
  qed
  then have "join_returns c' g' = Inr (c', g')"
    by (simp add: join_returns_def)
  with r show ?thesis by blast
qed

lemma join_two_returns: "join_returns 0 two_returns = Inr (2, two_returns_joined)"
  by code_simp

theorem join_returns_idempotent_witness:
  "distinct (dict_keys two_returns) \<and>
   join_returns 0 two_returns = Inr (2, two_returns_joined) \<and>
   join_returns 2 two_returns_joined = Inr (2, two_returns_joined)"
proof -
  have d: "distinct (dict_keys two_returns)" by code_simp
  from join_returns_idempotent [OF d, of 0] show ?thesis
    using d by (simp add: join_two_returns)
qed

text \<open>
  C7. On a map with more than one terminating node, \<open>join_returns\<close> leaves exactly one
  terminating node, the new one, and every node that was terminating now has that node's
  label as its only jump target; the other nodes are untouched. The map is a dictionary
  whose keys are the \<open>begin\<close> labels of its blocks, as \<open>add_node\<close> stores them, and the label
  the generator mints is fresh for it.
\<close>

theorem join_returns_single_exit:
  assumes dist: "distinct (dict_keys g)" and keyed: "keyed_by_begin g"
    and fresh: "ControlLabel c \<notin> set (dict_keys g)"
    and many: "length (return_nodes g) > 1"
  shows "\<exists>g'. join_returns c g = Inr (c + 2, g') \<and>
           return_nodes g' = [ControlLabel c] \<and>
           (\<forall>r \<in> set (return_nodes g). \<exists>blk. map_of g' r = Some blk \<and>
               jump_targets (base blk) = [ControlLabel c]) \<and>
           (\<forall>k. k \<notin> set (return_nodes g) \<and> k \<noteq> ControlLabel c \<longrightarrow> map_of g' k = map_of g k)"
proof -
  let ?solo = "BasicBlock \<lparr>bb_begin = ControlLabel c, bb_end = ControlLabel (c + 1),
       fallthrough = False, jump_targets = [], backedges = []\<rparr>"
  let ?g0 = "add_node g ?solo"
  let ?rs = "return_nodes g"
  have sub: "set ?rs \<subseteq> set (dict_keys g)"
    using terminating_keys [of g] by (simp add: set_return_nodes)
  then have "set ?rs \<subseteq> set (dict_keys ?g0)"
    by (auto simp: dict_keys_add_node)
  moreover have "keyed_by_begin ?g0"
    using keyed by (rule keyed_by_begin_add_node)
  ultimately obtain g' where g': "rewire_returns (ControlLabel c) ?g0 ?rs = Inr g'"
    and m: "map_of g' = (\<lambda>k. if k \<in> set ?rs
                       then map_option (\<lambda>b. replace_jump_targets b [ControlLabel c]) (map_of ?g0 k)
                       else map_of ?g0 k)"
    using rewire_returns_map [of ?rs ?g0 "ControlLabel c"] distinct_return_nodes [OF dist]
    by blast
  have jr: "join_returns c g = Inr (c + 2, g')"
    using many g' by (simp add: join_returns_def Let_def)
  have notin: "ControlLabel c \<notin> set ?rs"
    using sub fresh by blast
  have m0: "map_of ?g0 = (map_of g)(ControlLabel c \<mapsto> ?solo)"
    by (simp add: map_of_add_node)
  have rn: "x \<in> set ?rs" if "map_of g x = Some blk" "jump_targets (base blk) = []" for x blk
    using that by (auto simp: set_return_nodes terminating_def is_exiting_def)
  have termg: "terminating g' = {ControlLabel c}"
    using notin rn by (auto simp: terminating_def m m0 is_exiting_def split: if_splits)
  obtain c' g'' where "join_returns c g = Inr (c', g'')" "distinct (dict_keys g'')"
    using join_returns_total [OF dist, of c] by blast
  with jr have "distinct (dict_keys g')" by simp
  then have one: "return_nodes g' = [ControlLabel c]"
    using termg by (intro distinct_singleton) (simp_all add: distinct_return_nodes set_return_nodes)
  have each: "\<exists>blk. map_of g' r = Some blk \<and> jump_targets (base blk) = [ControlLabel c]"
    if "r \<in> set ?rs" for r
  proof -
    from that obtain b where "map_of g r = Some b"
      by (auto simp: set_return_nodes terminating_def)
    moreover have "r \<noteq> ControlLabel c" using that notin by blast
    ultimately show ?thesis using that by (simp add: m m0)
  qed
  have rest: "map_of g' k = map_of g k" if "k \<notin> set ?rs" "k \<noteq> ControlLabel c" for k
    using that by (simp add: m m0)
  from jr one each rest show ?thesis by blast
qed

theorem join_returns_single_exit_witness:
  "distinct (dict_keys two_returns) \<and> keyed_by_begin two_returns \<and>
   ControlLabel 0 \<notin> set (dict_keys two_returns) \<and>
   return_nodes two_returns = [BCLabel 2, BCLabel 6] \<and>
   return_nodes two_returns_joined = [ControlLabel 0] \<and>
   map_option (\<lambda>blk. jump_targets (base blk)) (map_of two_returns_joined (BCLabel 2)) =
     Some [ControlLabel 0] \<and>
   map_option (\<lambda>blk. jump_targets (base blk)) (map_of two_returns_joined (BCLabel 6)) =
     Some [ControlLabel 0]"
proof -
  have d: "distinct (dict_keys two_returns)" by code_simp
  have k: "keyed_by_begin two_returns" by code_simp
  have f: "ControlLabel 0 \<notin> set (dict_keys two_returns)" by code_simp
  have r: "return_nodes two_returns = [BCLabel 2, BCLabel 6]" by code_simp
  have m: "length (return_nodes two_returns) > 1" by (simp add: r)
  have j: "join_returns 0 two_returns = Inr (2, two_returns_joined)" by code_simp
  from join_returns_single_exit [OF d k f m] show ?thesis
    using d k f r by (auto simp: j)
qed

text \<open>
  C9. Scenario A. The flow builder finds the block boundaries 0, 4, 8, 12, 14 and 18, with
  the instructions as the test builds them and with the jump-target flags a decoder sets,
  and builds the six blocks of \<open>scenario_a_graph\<close>. Every jump target of every block lies
  at a greater offset than the block, so for every library function \<open>sccf\<close> whose
  components are strongly connected sets, \<open>compute_scc\<close> finds no component of two nodes or
  more; the components the function \<open>scc\<close> lists are the six single nodes.
\<close>

theorem scenario_a_blocks_and_scc:
  "from_bytecode scenario_a = Inr scenario_a_flow \<and>
   from_bytecode scenario_a_flagged = Inr scenario_a_flow \<and>
   set (block_offsets scenario_a_flow) = BCLabel ` {0, 4, 8, 12, 14, 18} \<and>
   build_basicblocks scenario_a_flow None = Inr scenario_a_graph \<and>
   dict_keys scenario_a_graph =
     [BCLabel 0, BCLabel 4, BCLabel 8, BCLabel 12, BCLabel 14, BCLabel 18] \<and>
   (sound_components scenario_a_graph (compute_scc sccf scenario_a_graph) \<longrightarrow>
      [c \<leftarrow> compute_scc sccf scenario_a_graph. 2 \<le> length c] = []) \<and>
   compute_scc scc scenario_a_graph =
     [[BCLabel 0], [BCLabel 4], [BCLabel 8], [BCLabel 12], [BCLabel 14], [BCLabel 18]]"
proof -
  have 1: "from_bytecode scenario_a = Inr scenario_a_flow" by code_simp
  have 2: "from_bytecode scenario_a_flagged = Inr scenario_a_flow" by code_simp
  have 3: "set (block_offsets scenario_a_flow) = BCLabel ` {0, 4, 8, 12, 14, 18}"
    by (auto simp: scenario_a_flow_def)
  have 4: "build_basicblocks scenario_a_flow None = Inr scenario_a_graph" by code_simp
  have 5: "dict_keys scenario_a_graph =
     [BCLabel 0, BCLabel 4, BCLabel 8, BCLabel 12, BCLabel 14, BCLabel 18]" by code_simp
  have 6: "[c \<leftarrow> compute_scc sccf scenario_a_graph. 2 \<le> length c] = []"
    if "sound_components scenario_a_graph (compute_scc sccf scenario_a_graph)"
  proof -
    have "[c \<leftarrow> compute_scc sccf scenario_a_graph. length c > 1] = []"
      using scenario_a_forward that by (rule forward_edges_no_cycle)
    then show ?thesis by (auto simp: filter_empty_conv)
  qed
  have 7: "compute_scc scc scenario_a_graph =
     [[BCLabel 0], [BCLabel 4], [BCLabel 8], [BCLabel 12], [BCLabel 14], [BCLabel 18]]"
    by code_simp
  show ?thesis using 1 2 3 4 5 6 by (simp add: 7)
qed

theorem scenario_a_blocks_and_scc_witness:
  "sound_components scenario_a_graph (compute_scc scc scenario_a_graph) \<and>
   [c \<leftarrow> compute_scc scc scenario_a_graph. 2 \<le> length c] = []"
proof -
  have 7: "compute_scc scc scenario_a_graph =
     [[BCLabel 0], [BCLabel 4], [BCLabel 8], [BCLabel 12], [BCLabel 14], [BCLabel 18]]"
    by code_simp
  have s: "sound_components scenario_a_graph (compute_scc scc scenario_a_graph)"
    by (simp add: 7 sound_components_def)
  from scenario_a_blocks_and_scc [of scc] s show ?thesis by blast
qed

text \<open>
  C2. Scenario B. The claim expects one loop region from \<open>restructure_loop\<close>; the call
  raises \<open>AssertionError\<close> instead and builds no region.
\<close>

theorem scenario_b_no_loop_region:
  "initial_graph scenario_b = Inr scenario_b_graph \<and>
   restructure_loop 3 scc \<lparr>clg = 0, heap = [scenario_b_graph]\<rparr> 0 = Some (Inl AssertionError)"
proof -
  have 1: "initial_graph scenario_b = Inr scenario_b_graph" by code_simp
  have 2: "restructure_loop 3 scc \<lparr>clg = 0, heap = [scenario_b_graph]\<rparr> 0 =
     Some (Inl AssertionError)" by code_simp
  show ?thesis using 1 2 by simp
qed

text \<open>
  C2, as the code has it. The blocks of scenario B are those of \<open>scenario_b_graph\<close>. Its one
  loop is the component of the blocks at 4, 12 and 14; the block at 0 jumps to 14 and to
  4, so the loop has the two headers 14 and 4, and \<open>restructure_loop\<close> fails the assertion
  that a loop has one header, whatever the counter and the bound of the recursion.
\<close>

theorem scenario_b_two_headers:
  "initial_graph scenario_b = Inr scenario_b_graph \<and>
   loops_of scc scenario_b_graph = [[BCLabel 4, BCLabel 12, BCLabel 14]] \<and>
   find_headers_and_entries scenario_b_graph [BCLabel 4, BCLabel 12, BCLabel 14] =
     ([BCLabel 14, BCLabel 4], [BCLabel 0]) \<and>
   restructure_loop (Suc n) scc \<lparr>clg = c, heap = [scenario_b_graph]\<rparr> 0 =
     Some (Inl AssertionError)"
proof -
  have 1: "initial_graph scenario_b = Inr scenario_b_graph" by code_simp
  have 2: "loops_of scc scenario_b_graph = [[BCLabel 4, BCLabel 12, BCLabel 14]]" by code_simp
  have 3: "find_headers_and_entries scenario_b_graph [BCLabel 4, BCLabel 12, BCLabel 14] =
     ([BCLabel 14, BCLabel 4], [BCLabel 0])" by code_simp
  have 4: "for_loops rec \<lparr>clg = c, heap = [scenario_b_graph]\<rparr> 0 None
     [[BCLabel 4, BCLabel 12, BCLabel 14]] = Some (Inl AssertionError)" for rec
    by code_simp
  have 5: "graph_at \<lparr>clg = c, heap = [scenario_b_graph]\<rparr> 0 = scenario_b_graph"
    by (simp add: graph_at_def)
  show ?thesis using 1 2 3 4 by (simp add: 5)
qed


text \<open>
  C6. The claim asks for an exception when a loop has one post-exit and a number of
  pre-exits other than one. The code builds the exception and does not raise it. On the
  block map of \<open>three_loops\<close> the loop at offset 6 has the post-exit 12 and the pre-exits 6
  and 8; \<open>restructure_loop\<close> returns, and the region of that loop carries the exit labels
  that the loop processed before it left behind: jump target 6 and exit 2 when the library
  lists the components from the first to the last, jump target 16 and exit 12 when it
  lists them from the last to the first. The jump to offset 12 is lost both times.
\<close>

theorem unreachable_case_not_raised:
  "initial_graph three_loops = Inr three_loops_graph \<and>
   loops_of scc three_loops_graph =
     [[BCLabel 2, BCLabel 4], [BCLabel 6, BCLabel 8, BCLabel 10], [BCLabel 12, BCLabel 14]] \<and>
   find_exits [BCLabel 6, BCLabel 8, BCLabel 10] three_loops_graph =
     Inr ([BCLabel 6, BCLabel 8], [BCLabel 12]) \<and>
   map_option (map_sum id (\<lambda>st. region_at st 0 (BCLabel 6)))
     (restructure_loop 3 scc \<lparr>clg = 0, heap = [three_loops_graph]\<rparr> 0) =
     Some (Inr (Some (''loop'', [BCLabel 6], Some (BCLabel 2)))) \<and>
   map_option (map_sum id (\<lambda>st. region_at st 0 (BCLabel 6)))
     (restructure_loop 3 scc_rev \<lparr>clg = 0, heap = [three_loops_graph]\<rparr> 0) =
     Some (Inr (Some (''loop'', [BCLabel 16], Some (BCLabel 12))))"
proof -
  have 1: "initial_graph three_loops = Inr three_loops_graph" by code_simp
  have 2: "loops_of scc three_loops_graph =
     [[BCLabel 2, BCLabel 4], [BCLabel 6, BCLabel 8, BCLabel 10], [BCLabel 12, BCLabel 14]]"
    by code_simp
  have 3: "find_exits [BCLabel 6, BCLabel 8, BCLabel 10] three_loops_graph =
     Inr ([BCLabel 6, BCLabel 8], [BCLabel 12])" by code_simp
  have 4: "map_option (map_sum id (\<lambda>st. region_at st 0 (BCLabel 6)))
     (restructure_loop 3 scc \<lparr>clg = 0, heap = [three_loops_graph]\<rparr> 0) =
     Some (Inr (Some (''loop'', [BCLabel 6], Some (BCLabel 2))))" by code_simp
  have 5: "map_option (map_sum id (\<lambda>st. region_at st 0 (BCLabel 6)))
     (restructure_loop 3 scc_rev \<lparr>clg = 0, heap = [three_loops_graph]\<rparr> 0) =
     Some (Inr (Some (''loop'', [BCLabel 16], Some (BCLabel 12))))" by code_simp
  show ?thesis using 1 2 3 4 5 by simp
qed

text \<open>
  C4. On a block map with at least one entry (a key without a predecessor in the map)
  \<open>_doms\<close> returns a map with a dominator set for every key, and for every key \<open>n\<close>: \<open>n\<close> is
  in its own set; the set of an entry is \<open>{n}\<close>; and when \<open>n\<close> has predecessors, its set is
  \<open>n\<close> together with the labels that are in the sets of all its predecessors.
\<close>

theorem doms_fixpoint:
  assumes "doms_entries g \<noteq> []"
  shows "\<exists>dmap. doms g = Inr dmap \<and> fst ` set dmap = set (dict_keys g) \<and>
           (\<forall>n\<in>set (dict_keys g).
              n \<in> dom_set dmap n \<and>
              (n \<in> set (doms_entries g) \<longrightarrow> dom_set dmap n = {n}) \<and>
              (doms_preds_table g n \<noteq> [] \<longrightarrow>
                 dom_set dmap n =
                   insert n (\<Inter>p\<in>set (doms_preds_table g n). dom_set dmap p)))"
proof -
  let ?es = "doms_entries g" and ?ps = "doms_preds_table g"
  from find_dominators_internal_inv [OF doms_tables_ok assms]
  obtain dmap where r: "doms g = Inr dmap" and inv: "dom_inv ?es (dict_keys g) ?ps dmap []"
    by (auto simp: doms_def)
  have keys: "fst ` set dmap = set (dict_keys g)" using inv by (simp add: dom_inv_def)
  have ent: "dom_set dmap n = {n}" if "n \<in> set ?es" for n
    using inv that by (simp add: dom_inv_def)
  have eq: "dom_set dmap n = dom_rhs ?ps dmap n" if "n \<in> set (dict_keys g)" "n \<notin> set ?es" for n
    using inv that by (simp add: dom_inv_def)
  have pe: "?ps n = []" if "n \<in> set ?es" for n
    using that by (simp add: doms_entries_def)
  have "n \<in> dom_set dmap n \<and> (n \<in> set ?es \<longrightarrow> dom_set dmap n = {n}) \<and>
        (?ps n \<noteq> [] \<longrightarrow> dom_set dmap n = insert n (\<Inter>p\<in>set (?ps n). dom_set dmap p))"
    if "n \<in> set (dict_keys g)" for n
  proof (cases "n \<in> set ?es")
    case True
    then show ?thesis using ent pe by simp
  next
    case False
    then show ?thesis using eq [OF that False] by (auto simp: dom_rhs_def)
  qed
  with r keys show ?thesis by blast
qed

theorem doms_fixpoint_witness:
  "doms_entries scenario_a_graph = [BCLabel 0] \<and>
   doms scenario_a_graph = Inr scenario_a_doms \<and>
   dom_set scenario_a_doms (BCLabel 0) = {BCLabel 0} \<and>
   doms_preds_table scenario_a_graph (BCLabel 18) = [BCLabel 8, BCLabel 14] \<and>
   dom_set scenario_a_doms (BCLabel 18) =
     insert (BCLabel 18)
       (dom_set scenario_a_doms (BCLabel 8) \<inter> dom_set scenario_a_doms (BCLabel 14))"
proof -
  have e: "doms_entries scenario_a_graph = [BCLabel 0]" by code_simp
  have j: "doms scenario_a_graph = Inr scenario_a_doms" by code_simp
  have p: "doms_preds_table scenario_a_graph (BCLabel 18) = [BCLabel 8, BCLabel 14]"
    by code_simp
  have k: "BCLabel 0 \<in> set (dict_keys scenario_a_graph)"
    "BCLabel 18 \<in> set (dict_keys scenario_a_graph)" by code_simp+
  have "doms_entries scenario_a_graph \<noteq> []" by (simp add: e)
  from doms_fixpoint [OF this] j
  have *: "\<forall>n\<in>set (dict_keys scenario_a_graph).
              n \<in> dom_set scenario_a_doms n \<and>
              (n \<in> set (doms_entries scenario_a_graph) \<longrightarrow> dom_set scenario_a_doms n = {n}) \<and>
              (doms_preds_table scenario_a_graph n \<noteq> [] \<longrightarrow>
                 dom_set scenario_a_doms n =
                   insert n (\<Inter>p\<in>set (doms_preds_table scenario_a_graph n).
                               dom_set scenario_a_doms p))"
    by auto
  from * k(1) have "dom_set scenario_a_doms (BCLabel 0) = {BCLabel 0}"
    by (simp add: e)
  moreover from * k(2) have "dom_set scenario_a_doms (BCLabel 18) =
     insert (BCLabel 18)
       (dom_set scenario_a_doms (BCLabel 8) \<inter> dom_set scenario_a_doms (BCLabel 14))"
    by (simp add: p)
  ultimately show ?thesis using e j p by simp
qed

text \<open>
  C1. The claim says that the flow \<open>ByteFlow.restructure\<close> returns holds the initial map
  after \<open>join_returns\<close>, \<open>restructure_loop\<close> and \<open>restructure_branch\<close>, and that the map of
  the receiver is left alone. The code copies the map first and then calls \<open>join_returns\<close>
  on the receiver's map. For the conditional with two returns the call returns a flow
  whose map (address 1) is the initial map, never closed and without any region, and the
  receiver's map (address 0) is now the closed one. The orchestrator as the spec words it
  leaves the receiver's map as it was and returns the head, tail and branch regions.
\<close>

theorem restructure_closes_receiver_only:
  "initial_graph two_returns_bc = Inr two_returns \<and>
   restructure 3 scc \<lparr>clg = 0, heap = [two_returns]\<rparr> \<lparr>bc = two_returns_bc, bbmap = 0\<rparr> =
     Some (Inr (\<lparr>clg = 2, heap = [two_returns_joined, two_returns]\<rparr>,
                \<lparr>bc = two_returns_bc, bbmap = 1\<rparr>)) \<and>
   map_option (map_sum id (\<lambda>(st, f). (graph_at st 0, kinds_at st (bbmap f))))
     (restructure_as_specified 3 scc \<lparr>clg = 0, heap = [two_returns]\<rparr>
        \<lparr>bc = two_returns_bc, bbmap = 0\<rparr>) =
     Some (Inr (two_returns,
                [(BCLabel 0, ''head''), (ControlLabel 0, ''tail''),
                 (BCLabel 6, ''branch''), (BCLabel 2, ''branch'')]))"
proof -
  have 1: "initial_graph two_returns_bc = Inr two_returns" by code_simp
  have 2: "restructure 3 scc \<lparr>clg = 0, heap = [two_returns]\<rparr> \<lparr>bc = two_returns_bc, bbmap = 0\<rparr> =
     Some (Inr (\<lparr>clg = 2, heap = [two_returns_joined, two_returns]\<rparr>,
                \<lparr>bc = two_returns_bc, bbmap = 1\<rparr>))" by code_simp
  have 3: "map_option (map_sum id (\<lambda>(st, f). (graph_at st 0, kinds_at st (bbmap f))))
     (restructure_as_specified 3 scc \<lparr>clg = 0, heap = [two_returns]\<rparr>
        \<lparr>bc = two_returns_bc, bbmap = 0\<rparr>) =
     Some (Inr (two_returns,
                [(BCLabel 0, ''head''), (ControlLabel 0, ''tail''),
                 (BCLabel 6, ''branch''), (BCLabel 2, ''branch'')]))" by code_simp
  show ?thesis using 1 2 3 by simp
qed

text \<open>
  C3. The claim says that no header label of a region is a key of its subregion. For the
  \<open>if\<close>/\<open>else\<close> bytecode \<open>ByteFlow.restructure\<close> returns a head region whose header label 0
  is a key of its subregion and a tail region whose header label 8 is a key of its
  subregion; the two branch regions have no headers. The loop regions that
  \<open>restructure_loop\<close> builds for \<open>three_loops\<close> keep their header out of the subregion.
\<close>

theorem head_and_tail_hold_their_headers:
  "initial_graph if_else_bc = Inr if_else_graph \<and>
   map_option (map_sum id (\<lambda>(st, f).
       map (headers_in_subregion st (bbmap f)) [BCLabel 0, BCLabel 8, BCLabel 6, BCLabel 2]))
     (restructure 3 scc \<lparr>clg = 0, heap = [if_else_graph]\<rparr> \<lparr>bc = if_else_bc, bbmap = 0\<rparr>) =
     Some (Inr [Some (''head'', [BCLabel 0]), Some (''tail'', [BCLabel 8]),
                Some (''branch'', []), Some (''branch'', [])]) \<and>
   map_option (map_sum id (\<lambda>st.
       map (headers_in_subregion st 0) [BCLabel 2, BCLabel 12]))
     (restructure_loop 3 scc \<lparr>clg = 0, heap = [three_loops_graph]\<rparr> 0) =
     Some (Inr [Some (''loop'', []), Some (''loop'', [])])"
proof -
  have 1: "initial_graph if_else_bc = Inr if_else_graph" by code_simp
  have 2: "map_option (map_sum id (\<lambda>(st, f).
       map (headers_in_subregion st (bbmap f)) [BCLabel 0, BCLabel 8, BCLabel 6, BCLabel 2]))
     (restructure 3 scc \<lparr>clg = 0, heap = [if_else_graph]\<rparr> \<lparr>bc = if_else_bc, bbmap = 0\<rparr>) =
     Some (Inr [Some (''head'', [BCLabel 0]), Some (''tail'', [BCLabel 8]),
                Some (''branch'', []), Some (''branch'', [])])" by code_simp
  have 3: "map_option (map_sum id (\<lambda>st.
       map (headers_in_subregion st 0) [BCLabel 2, BCLabel 12]))
     (restructure_loop 3 scc \<lparr>clg = 0, heap = [three_loops_graph]\<rparr> 0) =
     Some (Inr [Some (''loop'', []), Some (''loop'', [])])" by code_simp
  show ?thesis using 1 2 3 by simp
qed

end
